theory Spec2Isabelle
  imports Main "HOL-Library.Char_ord"
begin

section \<open>Byte strings and the Go string helpers\<close>

text \<open>
  A Go \<^verbatim>\<open>string\<close> is a sequence of bytes, indexed by byte; it is modelled as
  \<^typ>\<open>string\<close> (a list of 8-bit characters). Go's \<^verbatim>\<open>int\<close> positions are natural
  numbers here, except for the running length delta of the parameter renamer, which can
  go negative and is an \<^typ>\<open>int\<close>.
\<close>

datatype error =
    SliceBoundsOutOfRange    \<comment> \<open>Go runtime panic of a slice expression\<close>
  | InvalidIdentifier string \<comment> \<open>the error value of \<^verbatim>\<open>ValidateIdentifier\<close>\<close>

definition isIdentChar :: "char \<Rightarrow> bool" where
  "isIdentChar c \<longleftrightarrow>
     (CHR ''a'' \<le> c \<and> c \<le> CHR ''z'') \<or> (CHR ''A'' \<le> c \<and> c \<le> CHR ''Z'') \<or>
     (CHR ''0'' \<le> c \<and> c \<le> CHR ''9'') \<or> c = CHR ''_''"

text \<open>\<^verbatim>\<open>s[a:b]\<close>; every use below has \<open>a \<le> b \<le> len(s)\<close>.\<close>

definition slice :: "string \<Rightarrow> nat \<Rightarrow> nat \<Rightarrow> string" where
  "slice s a b = take (b - a) (drop a s)"

text \<open>The cutset of every \<^verbatim>\<open>strings.TrimLeft\<close> / \<^verbatim>\<open>TrimRight\<close> call is \<^verbatim>\<open>" \t"\<close>.\<close>

definition isBlank :: "char \<Rightarrow> bool" where
  "isBlank c \<longleftrightarrow> c = CHR '' '' \<or> c = CHR 0x09"

definition TrimLeft :: "string \<Rightarrow> string" where
  "TrimLeft s = dropWhile isBlank s"

definition TrimRight :: "string \<Rightarrow> string" where
  "TrimRight s = rev (dropWhile isBlank (rev s))"

definition HasSuffix :: "string \<Rightarrow> string \<Rightarrow> bool" where
  "HasSuffix s suf \<longleftrightarrow> length suf \<le> length s \<and> drop (length s - length suf) s = suf"

text \<open>\<^verbatim>\<open>strings.Index(s, sep)\<close> for a one-byte separator; \<open>None\<close> is Go's \<open>-1\<close>.\<close>

fun IndexByte :: "string \<Rightarrow> char \<Rightarrow> nat option" where
  "IndexByte [] c = None"
| "IndexByte (x # xs) c = (if x = c then Some 0 else map_option Suc (IndexByte xs c))"

section \<open>The regular expressions the renamer compiles\<close>

text \<open>
  Go's \<^verbatim>\<open>\b\<close> is the ASCII word boundary: it holds at a position when exactly one of
  the bytes before and after it is a word character \<^verbatim>\<open>[0-9A-Za-z_]\<close>, the same set as
  \<^const>\<open>isIdentChar\<close>. The names quoted into the patterns are ASCII (the command checks
  them with \<^verbatim>\<open>ValidateIdentifier\<close>), and an ASCII byte of a Go string is always a
  character of its own, so matching byte by byte is what the regexp engine does on any
  buffer.
\<close>

definition isWordBoundary :: "string \<Rightarrow> nat \<Rightarrow> bool" where
  "isWordBoundary s i \<longleftrightarrow>
     (0 < i \<and> i \<le> length s \<and> isIdentChar (s ! (i - 1))) \<noteq> (i < length s \<and> isIdentChar (s ! i))"

text \<open>The pattern \<^verbatim>\<open>\b + QuoteMeta(name) + \b\<close> matching at byte position \<open>i\<close>.\<close>

definition wordMatchAt :: "string \<Rightarrow> string \<Rightarrow> nat \<Rightarrow> bool" where
  "wordMatchAt s name i \<longleftrightarrow>
     isWordBoundary s i \<and> slice s i (i + length name) = name \<and> isWordBoundary s (i + length name)"

text \<open>
  \<^verbatim>\<open>FindAllStringIndex(src, -1)\<close> for that pattern: the leftmost match at or after the
  current position, then the search resumes at the end of the match.
\<close>

function findAllFrom :: "string \<Rightarrow> string \<Rightarrow> nat \<Rightarrow> (nat \<times> nat) list" where
  "findAllFrom src name pos =
     (if name = [] \<or> length src < pos + length name then []
      else if wordMatchAt src name pos
           then (pos, pos + length name) # findAllFrom src name (pos + length name)
           else findAllFrom src name (pos + 1))"
  by pat_completeness auto
termination
  by (relation "measure (\<lambda>(src, name, pos). length src - pos)") (auto simp: neq_Nil_conv)

declare findAllFrom.simps [simp del]

text \<open>
  With an empty name the pattern is \<^verbatim>\<open>\b\b\<close>, whose matches are the empty spans at the
  word boundaries; \<^verbatim>\<open>ValidateIdentifier\<close> keeps the command line from ever asking for it.
\<close>

definition findAllStringIndex :: "string \<Rightarrow> string \<Rightarrow> (nat \<times> nat) list" where
  "findAllStringIndex src name =
     (if name = [] then map (\<lambda>i. (i, i)) (filter (isWordBoundary src) [0..<Suc (length src)])
      else findAllFrom src name 0)"

definition isSpace :: "char \<Rightarrow> bool" where
  \<comment> \<open>the class \<^verbatim>\<open>\s\<close> of Go's regexp syntax\<close>
  "isSpace c \<longleftrightarrow> c = CHR 0x09 \<or> c = CHR 0x0A \<or> c = CHR 0x0C \<or> c = CHR 0x0D \<or> c = CHR '' ''"

text \<open>The pattern \<^verbatim>\<open>\b + QuoteMeta(name) + \s*:\<close> matching at byte position \<open>i\<close>.\<close>

definition paramMatchAt :: "string \<Rightarrow> string \<Rightarrow> nat \<Rightarrow> bool" where
  "paramMatchAt s name i \<longleftrightarrow>
     isWordBoundary s i \<and> slice s i (i + length name) = name \<and>
     (case dropWhile isSpace (drop (i + length name) s) of [] \<Rightarrow> False | c # _ \<Rightarrow> c = CHR '':'')"

section \<open>Context predicates\<close>

definition isClassContext :: "string \<Rightarrow> nat \<Rightarrow> nat \<Rightarrow> bool" where
  "isClassContext src start end =
     (let pre = take start src; post = drop end src in
      if pre \<noteq> [] \<and> isIdentChar (last pre) then False
      else if post \<noteq> [] \<and> isIdentChar (hd post) then False
      else True)"

record MethodRenamer =
  ClassName :: string

definition isMethodContext :: "MethodRenamer \<Rightarrow> string \<Rightarrow> nat \<Rightarrow> nat \<Rightarrow> bool" where
  "isMethodContext r src start end =
     (let pre = take start src; post = TrimLeft (drop end src) in
      if pre \<noteq> [] \<and> isIdentChar (last pre) then False
      else if post \<noteq> [] \<and> isIdentChar (hd post) then False
      else let trimmedPre = TrimRight pre in
        if HasSuffix trimmedPre ''::'' then True
        else if HasSuffix trimmedPre ''fun'' then True
        else if post \<noteq> [] \<and> hd post = CHR ''('' then True
        else False)"

record PropertyRenamer =
  ClassName :: string

definition isPropertyContext :: "PropertyRenamer \<Rightarrow> string \<Rightarrow> nat \<Rightarrow> nat \<Rightarrow> bool" where
  "isPropertyContext r src start end =
     (let pre = take start src; post = TrimLeft (drop end src) in
      if pre \<noteq> [] \<and> isIdentChar (last pre) then False
      else if post \<noteq> [] \<and> isIdentChar (hd post) then False
      else let trimmedPre = TrimRight pre in
        if HasSuffix trimmedPre ''.'' then True
        else if HasSuffix trimmedPre ''val'' \<or> HasSuffix trimmedPre ''var'' then True
        else if post \<noteq> [] \<and> hd post = CHR ''='' \<and> (length post < 2 \<or> post ! 1 \<noteq> CHR ''='') then True
        else if post \<noteq> [] \<and> hd post = CHR '':'' then True
        else if post = [] \<or> hd post \<noteq> CHR ''('' then True
        else False)"

definition isParameterContext :: "string \<Rightarrow> nat \<Rightarrow> nat \<Rightarrow> bool" where
  "isParameterContext src start end =
     (let pre = take start src; post = drop end src in
      if pre \<noteq> [] \<and> isIdentChar (last pre) then False
      else if post \<noteq> [] \<and> isIdentChar (hd post) then False
      else let trimPost = TrimLeft post in
        if trimPost \<noteq> [] \<and> hd trimPost = CHR ''('' then False
        else True)"

section \<open>The single-pass engine\<close>

text \<open>
  The loop of \<^verbatim>\<open>singlePassRename\<close> over the match list, with its three variables: the
  builder \<open>buf\<close>, the end \<open>lst\<close> (Go's \<^verbatim>\<open>last\<close>) of the last replaced span and the
  \<open>count\<close>.
\<close>

fun singlePassLoop ::
  "string \<Rightarrow> string \<Rightarrow> (string \<Rightarrow> nat \<Rightarrow> nat \<Rightarrow> bool) \<Rightarrow> (nat \<times> nat) list \<Rightarrow>
   string \<Rightarrow> nat \<Rightarrow> nat \<Rightarrow> string \<times> nat" where
  "singlePassLoop src newName contextFn [] buf lst count = (buf @ drop lst src, count)"
| "singlePassLoop src newName contextFn ((start, end) # locs) buf lst count =
     (if contextFn src start end
      then singlePassLoop src newName contextFn locs (buf @ slice src lst start @ newName) end (count + 1)
      else singlePassLoop src newName contextFn locs buf lst count)"

definition singlePassRename ::
  "string \<Rightarrow> string \<Rightarrow> string \<Rightarrow> (string \<Rightarrow> nat \<Rightarrow> nat \<Rightarrow> bool) \<Rightarrow> string \<times> nat" where
  "singlePassRename src oldName newName contextFn =
     singlePassLoop src newName contextFn (findAllStringIndex src oldName) [] 0 0"

definition ClassRenamer_Rename :: "string \<Rightarrow> string \<Rightarrow> string \<Rightarrow> string \<times> nat" where
  "ClassRenamer_Rename content oldName newName = singlePassRename content oldName newName isClassContext"

definition MethodRenamer_Rename :: "MethodRenamer \<Rightarrow> string \<Rightarrow> string \<Rightarrow> string \<Rightarrow> string \<times> nat" where
  "MethodRenamer_Rename r content oldName newName =
     singlePassRename content oldName newName (isMethodContext r)"

definition PropertyRenamer_Rename :: "PropertyRenamer \<Rightarrow> string \<Rightarrow> string \<Rightarrow> string \<Rightarrow> string \<times> nat" where
  "PropertyRenamer_Rename r content oldName newName =
     singlePassRename content oldName newName (isPropertyContext r)"

section \<open>Parameter rename\<close>

text \<open>
  \<^verbatim>\<open>findMatchingParen\<close> and \<^verbatim>\<open>findMatchingBrace\<close> are the same loop over a different
  pair of delimiters; \<open>None\<close> is the \<open>-1\<close> they return when the depth never comes back
  to zero.
\<close>

function matchLoop :: "char \<Rightarrow> char \<Rightarrow> string \<Rightarrow> nat \<Rightarrow> int \<Rightarrow> nat option" where
  "matchLoop opn cls src i depth =
     (if i < length src then
        (if src ! i = opn then matchLoop opn cls src (i + 1) (depth + 1)
         else if src ! i = cls then
           (if depth - 1 = 0 then Some i else matchLoop opn cls src (i + 1) (depth - 1))
         else matchLoop opn cls src (i + 1) depth)
      else None)"
  by pat_completeness auto
termination
  by (relation "measure (\<lambda>(opn, cls, src, i, depth). length src - i)") auto

declare matchLoop.simps [simp del]

definition findMatchingParen :: "string \<Rightarrow> nat \<Rightarrow> nat option" where
  "findMatchingParen src open = matchLoop (CHR ''('') (CHR '')'') src open 0"

definition findMatchingBrace :: "string \<Rightarrow> nat \<Rightarrow> nat option" where
  "findMatchingBrace src open = matchLoop (CHR ''{'') (CHR ''}'') src open 0"

function skipWhitespace :: "string \<Rightarrow> nat \<Rightarrow> nat" where
  "skipWhitespace src i =
     (if i < length src \<and>
         (src ! i = CHR '' '' \<or> src ! i = CHR 0x09 \<or> src ! i = CHR 0x0A \<or> src ! i = CHR 0x0D)
      then skipWhitespace src (i + 1) else i)"
  by pat_completeness auto
termination
  by (relation "measure (\<lambda>(src, i). length src - i)") auto

function skipReturnType :: "string \<Rightarrow> nat \<Rightarrow> nat" where
  "skipReturnType src i =
     (if i < length src \<and> src ! i \<noteq> CHR ''{'' \<and> src ! i \<noteq> CHR ''='' \<and> src ! i \<noteq> CHR 0x0A
      then skipReturnType src (i + 1) else i)"
  by pat_completeness auto
termination
  by (relation "measure (\<lambda>(src, i). length src - i)") auto

declare skipWhitespace.simps [simp del] skipReturnType.simps [simp del]

text \<open>\<open>None\<close> is the pair \<open>(-1, -1)\<close>.\<close>

definition findFunctionBody :: "string \<Rightarrow> nat \<Rightarrow> (nat \<times> nat) option" where
  "findFunctionBody src afterParams =
     (let i0 = skipWhitespace src afterParams;
          i = (if i0 < length src \<and> src ! i0 = CHR '':'' then skipReturnType src i0 else i0)
      in if length src \<le> i then None
         else if src ! i = CHR ''{'' then
           (case findMatchingBrace src i of None \<Rightarrow> None | Some e \<Rightarrow> Some (i, e + 1))
         else if src ! i = CHR ''='' then
           (case IndexByte (drop i src) (CHR 0x0A) of
              None \<Rightarrow> Some (i, length src)
            | Some lineEnd \<Rightarrow> Some (i, i + lineEnd + 1))
         else None)"

definition hasParamName :: "string \<Rightarrow> string \<Rightarrow> bool" where
  "hasParamName paramSection oldName \<longleftrightarrow>
     list_ex (paramMatchAt paramSection oldName) [0..<Suc (length paramSection)]"

record renameState =
  result :: string
  offset :: int
  total :: nat

text \<open>
  One iteration of the loop of \<^verbatim>\<open>renameParameters\<close>, for the keyword match starting at
  \<open>loc0\<close> of the original source. \<^verbatim>\<open>result[funStart:]\<close> panics when \<open>funStart\<close> is
  negative or beyond the length; every \<^verbatim>\<open>continue\<close> returns the state as it was.
\<close>

definition renameHeader :: "string \<Rightarrow> string \<Rightarrow> renameState \<Rightarrow> nat \<Rightarrow> error + renameState" where
  "renameHeader oldName newName st loc0 =
     (let funStart = int loc0 + offset st in
      if funStart < 0 \<or> int (length (result st)) < funStart then Inl SliceBoundsOutOfRange
      else
        case IndexByte (drop (nat funStart) (result st)) (CHR ''('') of
          None \<Rightarrow> Inr st
        | Some p \<Rightarrow>
            let parenOpen = p + nat funStart in
            case findMatchingParen (result st) parenOpen of
              None \<Rightarrow> Inr st
            | Some parenClose \<Rightarrow>
                let paramSection = slice (result st) parenOpen (parenClose + 1) in
                if \<not> hasParamName paramSection oldName then Inr st
                else
                  let bodyEnd = (case findFunctionBody (result st) (parenClose + 1) of
                                   None \<Rightarrow> parenClose + 1
                                 | Some (bodyStart, bodyEnd) \<Rightarrow> bodyEnd);
                      scopeContent = slice (result st) parenOpen bodyEnd;
                      (renamed, n) = singlePassRename scopeContent oldName newName isParameterContext
                  in if 0 < n
                     then Inr \<lparr>result = take parenOpen (result st) @ renamed @ drop bodyEnd (result st),
                               offset = offset st + (int (length renamed) - int (length scopeContent)),
                               total = total st + n\<rparr>
                     else Inr st)"

fun renameLoop :: "string \<Rightarrow> string \<Rightarrow> (nat \<times> nat) list \<Rightarrow> renameState \<Rightarrow> error + renameState" where
  "renameLoop oldName newName [] st = Inr st"
| "renameLoop oldName newName (loc # locs) st =
     (case renameHeader oldName newName st (fst loc) of
        Inl e \<Rightarrow> Inl e
      | Inr st' \<Rightarrow> renameLoop oldName newName locs st')"

definition renameParameters :: "string \<Rightarrow> string \<Rightarrow> string \<Rightarrow> error + string \<times> nat" where
  "renameParameters src oldName newName =
     (case renameLoop oldName newName (findAllStringIndex src ''fun'')
             \<lparr>result = src, offset = 0, total = 0\<rparr> of
        Inl e \<Rightarrow> Inl e
      | Inr st \<Rightarrow> Inr (result st, total st))"

definition ParameterRenamer_Rename :: "string \<Rightarrow> string \<Rightarrow> string \<Rightarrow> error + string \<times> nat" where
  "ParameterRenamer_Rename content oldName newName = renameParameters content oldName newName"

section \<open>The command layer\<close>

definition ValidateIdentifier :: "string \<Rightarrow> error option" where
  \<comment> \<open>the pattern \<^verbatim>\<open>^[a-zA-Z_][a-zA-Z0-9_]*$\<close>; \<open>None\<close> is the \<^verbatim>\<open>nil\<close> error\<close>
  "ValidateIdentifier s =
     (case s of
        [] \<Rightarrow> Some (InvalidIdentifier s)
      | c # cs \<Rightarrow>
          if ((CHR ''a'' \<le> c \<and> c \<le> CHR ''z'') \<or> (CHR ''A'' \<le> c \<and> c \<le> CHR ''Z'') \<or> c = CHR ''_'')
             \<and> list_all isIdentChar cs
          then None else Some (InvalidIdentifier s))"

text \<open>
  \<^verbatim>\<open>buildRenameFn\<close>; the package variable \<^verbatim>\<open>renameClass\<close> (the \<^verbatim>\<open>--class\<close> flag) is
  its first argument here. The three single-pass renamers cannot fail.
\<close>

definition buildRenameFn :: "string \<Rightarrow> string \<Rightarrow> string \<Rightarrow> string \<Rightarrow> string \<Rightarrow> error + string \<times> nat" where
  "buildRenameFn renameClass symType oldName newName content =
     (if symType = ''class'' \<or> symType = ''interface'' \<or> symType = ''object''
        then Inr (ClassRenamer_Rename content oldName newName)
      else if symType = ''method''
        then Inr (MethodRenamer_Rename \<lparr>MethodRenamer.ClassName = renameClass\<rparr> content oldName newName)
      else if symType = ''property''
        then Inr (PropertyRenamer_Rename \<lparr>PropertyRenamer.ClassName = renameClass\<rparr> content oldName newName)
      else if symType = ''parameter''
        then ParameterRenamer_Rename content oldName newName
      else Inr (content, 0))"

section \<open>Notions of the specification\<close>



text \<open>
  An occurrence, as the specification's data model words it: the text at the position
  equals the target and the adjacent characters, where there are any, are not identifier
  characters. \<open>occurrences\<close> lists the spans of all of them from left to right;
  \<open>accepted\<close> keeps the spans the governing predicate accepts.
\<close>

definition isOccurrence :: "string \<Rightarrow> string \<Rightarrow> nat \<Rightarrow> bool" where
  "isOccurrence src name i \<longleftrightarrow>
     slice src i (i + length name) = name \<and>
     (i = 0 \<or> \<not> isIdentChar (src ! (i - 1))) \<and>
     (length src \<le> i + length name \<or> \<not> isIdentChar (src ! (i + length name)))"

definition occurrences :: "string \<Rightarrow> string \<Rightarrow> (nat \<times> nat) list" where
  "occurrences src name =
     map (\<lambda>i. (i, i + length name)) (filter (isOccurrence src name) [0..<length src])"

definition accepted :: "(string \<Rightarrow> nat \<Rightarrow> nat \<Rightarrow> bool) \<Rightarrow> string \<Rightarrow> (nat \<times> nat) list \<Rightarrow> (nat \<times> nat) list" where
  "accepted contextFn src spans = filter (\<lambda>(s, e). contextFn src s e) spans"

text \<open>
  The buffer with a set of spans replaced, position by position: the new name stands
  where a span starts, nothing stands for the other positions of a span, and every
  position outside the spans keeps its byte.
\<close>

definition piece :: "string \<Rightarrow> string \<Rightarrow> (nat \<times> nat) list \<Rightarrow> nat \<Rightarrow> string" where
  "piece src newName spans i =
     (if i \<in> set (map fst spans) then newName
      else if list_ex (\<lambda>(s, e). s < i \<and> i < e) spans then []
      else [src ! i])"

definition replaceSpans :: "string \<Rightarrow> string \<Rightarrow> (nat \<times> nat) list \<Rightarrow> string" where
  "replaceSpans src newName spans = concat (map (piece src newName spans) [0..<length src])"

text \<open>
  Tokens: a buffer splits into its maximal runs of identifier characters, the identifiers
  of the glossary, and the single characters between them. A rename relates a token to
  itself or, when it is the old name, to the new name.
\<close>

function tokens :: "string \<Rightarrow> string list" where
  "tokens [] = []"
| "tokens (c # cs) =
     (if isIdentChar c then takeWhile isIdentChar (c # cs) # tokens (dropWhile isIdentChar cs)
      else [c] # tokens cs)"
  by pat_completeness auto
termination
  by (relation "measure length") (auto simp: length_dropWhile_le less_Suc_eq_le)

definition renamedToken :: "string \<Rightarrow> string \<Rightarrow> string \<Rightarrow> string \<Rightarrow> bool" where
  "renamedToken oldName newName t t' \<longleftrightarrow> t' = t \<or> (t = oldName \<and> t' = newName)"

definition startsNonIdent :: "string \<Rightarrow> bool" where
  "startsNonIdent xs \<longleftrightarrow> xs = [] \<or> \<not> isIdentChar (hd xs)"

definition endsNonIdent :: "string \<Rightarrow> bool" where
  "endsNonIdent xs \<longleftrightarrow> xs = [] \<or> \<not> isIdentChar (last xs)"

text \<open>
  Two notions for the proofs: the reconstruction of the single-pass loop as a function of
  the accepted spans, and spans that are ordered, non-empty, within the buffer and do not
  overlap.
\<close>

fun spliceFrom :: "string \<Rightarrow> string \<Rightarrow> (nat \<times> nat) list \<Rightarrow> nat \<Rightarrow> string" where
  "spliceFrom src newName [] lo = drop lo src"
| "spliceFrom src newName ((s, e) # spans) lo = slice src lo s @ newName @ spliceFrom src newName spans e"

fun spansOk :: "nat \<Rightarrow> (nat \<times> nat) list \<Rightarrow> nat \<Rightarrow> bool" where
  "spansOk lo [] n = True"
| "spansOk lo ((s, e) # spans) n = (lo \<le> s \<and> s < e \<and> e \<le> n \<and> spansOk e spans n)"

section \<open>What a match of the word pattern is\<close>

lemma IndexByte_Some: "IndexByte xs c = Some p \<Longrightarrow> p < length xs \<and> xs ! p = c"
  by (induction xs arbitrary: p) (auto split: if_splits)

lemma ValidateIdentifier_chars:
  assumes "ValidateIdentifier s = None"
  shows "s \<noteq> []" and "list_all isIdentChar s"
  using assms
  by (auto simp: ValidateIdentifier_def isIdentChar_def split: list.splits if_splits)

lemma findAllFrom_member:
  "(s, e) \<in> set (findAllFrom src name pos) \<Longrightarrow>
     pos \<le> s \<and> e = s + length name \<and> e \<le> length src \<and> wordMatchAt src name s"
proof (induction src name pos rule: findAllFrom.induct)
  case (1 src name pos)
  show ?case
  proof (cases "name = [] \<or> length src < pos + length name")
    case True
    with "1.prems" show ?thesis by (simp add: findAllFrom.simps [of src name pos])
  next
    case False
    note nf = False
    show ?thesis
    proof (cases "wordMatchAt src name pos")
      case True
      with nf "1.prems" have "(s, e) = (pos, pos + length name) \<or> (s, e) \<in> set (findAllFrom src name (pos + length name))"
        by (simp add: findAllFrom.simps [of src name pos])
      then show ?thesis
      proof
        assume "(s, e) = (pos, pos + length name)"
        with True nf show ?thesis by auto
      next
        assume "(s, e) \<in> set (findAllFrom src name (pos + length name))"
        with "1.IH"(1) [OF nf True] show ?thesis by auto
      qed
    next
      case False
      with nf "1.prems" have "(s, e) \<in> set (findAllFrom src name (pos + 1))"
        by (simp add: findAllFrom.simps [of src name pos])
      with "1.IH"(2) [OF nf False] show ?thesis by auto
    qed
  qed
qed

lemma slice_eq_nth:
  assumes "slice s i (i + length name) = name" "k < length name"
  shows "i + k < length s" "s ! (i + k) = name ! k"
proof -
  from assms(1) have t: "take (length name) (drop i s) = name" by (simp add: slice_def)
  then have "length (take (length name) (drop i s)) = length name" by simp
  then have len: "length name \<le> length s - i" by simp
  with assms(2) show "i + k < length s" by simp
  have "name ! k = take (length name) (drop i s) ! k" using t by simp
  also have "\<dots> = s ! (i + k)" using assms(2) len by simp
  finally show "s ! (i + k) = name ! k" by simp
qed

lemma wordMatchAt_boundaries:
  assumes v: "ValidateIdentifier name = None" and m: "wordMatchAt src name s"
  shows "s + length name \<le> length src"
    and "slice src s (s + length name) = name"
    and "s = 0 \<or> \<not> isIdentChar (src ! (s - 1))"
    and "s + length name = length src \<or> \<not> isIdentChar (src ! (s + length name))"
proof -
  from v have ne: "name \<noteq> []" and ids: "list_all isIdentChar name"
    by (rule ValidateIdentifier_chars)+
  from m have sl: "slice src s (s + length name) = name"
    and b1: "isWordBoundary src s" and b2: "isWordBoundary src (s + length name)"
    by (simp_all add: wordMatchAt_def)
  show "slice src s (s + length name) = name" by (rule sl)
  from ne have pos: "0 < length name" by simp
  have f: "s + 0 < length src" "src ! (s + 0) = name ! 0"
    using slice_eq_nth [OF sl pos] by simp_all
  have kl: "length name - 1 < length name" using pos by simp
  have l: "s + (length name - 1) < length src" "src ! (s + (length name - 1)) = name ! (length name - 1)"
    by (rule slice_eq_nth [OF sl kl])+
  from l(1) pos show "s + length name \<le> length src" by simp
  have "isIdentChar (name ! 0)" using ids pos by (simp add: list_all_length)
  with f have "s < length src \<and> isIdentChar (src ! s)" by simp
  with b1 show "s = 0 \<or> \<not> isIdentChar (src ! (s - 1))"
    by (auto simp: isWordBoundary_def)
  have "isIdentChar (name ! (length name - 1))" using ids pos by (simp add: list_all_length)
  with l pos have "isIdentChar (src ! (s + length name - 1))" by simp
  with b2 l(1) pos show "s + length name = length src \<or> \<not> isIdentChar (src ! (s + length name))"
    by (auto simp: isWordBoundary_def)
qed

lemma match_boundaries:
  assumes v: "ValidateIdentifier name = None"
    and m: "(s, e) \<in> set (findAllStringIndex src name)"
  shows "e = s + length name" and "e \<le> length src" and "slice src s e = name"
    and "s = 0 \<or> \<not> isIdentChar (src ! (s - 1))"
    and "e = length src \<or> \<not> isIdentChar (src ! e)"
proof -
  from v have ne: "name \<noteq> []" by (rule ValidateIdentifier_chars)
  with m have "(s, e) \<in> set (findAllFrom src name 0)" by (simp add: findAllStringIndex_def)
  from findAllFrom_member [OF this] have e: "e = s + length name" and w: "wordMatchAt src name s"
    by simp_all
  show "e = s + length name" by (rule e)
  from wordMatchAt_boundaries [OF v w] e
  show "e \<le> length src" "slice src s e = name" "s = 0 \<or> \<not> isIdentChar (src ! (s - 1))"
    "e = length src \<or> \<not> isIdentChar (src ! e)"
    by simp_all
qed

lemma last_take_nth:
  assumes "0 < start" "start \<le> length src"
  shows "last (take start src) = src ! (start - 1)"
proof -
  from assms have ne: "take start src \<noteq> []" by auto
  from assms have "length (take start src) = start" by simp
  with last_conv_nth [OF ne] assms show ?thesis by simp
qed

lemma singlePassLoop_splice:
  "singlePassLoop src newName contextFn locs buf lst count =
     (buf @ spliceFrom src newName (accepted contextFn src locs) lst,
      count + length (accepted contextFn src locs))"
  by (induction locs arbitrary: buf lst count) (auto simp: accepted_def)

lemma spansOk_mono: "spansOk lo spans n \<Longrightarrow> lo' \<le> lo \<Longrightarrow> spansOk lo' spans n"
  by (cases spans) auto

lemma spansOk_filter: "spansOk lo spans n \<Longrightarrow> spansOk lo (filter P spans) n"
proof (induction spans arbitrary: lo)
  case Nil
  then show ?case by simp
next
  case (Cons x spans)
  obtain s e where x: "x = (s, e)" by (cases x)
  from Cons.prems x have b: "lo \<le> s" "s < e" "e \<le> n" and r: "spansOk e spans n" by simp_all
  from Cons.IH [OF r] have f: "spansOk e (filter P spans) n" .
  show ?case
  proof (cases "P x")
    case True
    with x b f show ?thesis by simp
  next
    case False
    from spansOk_mono [OF f, of lo] b have "spansOk lo (filter P spans) n" by simp
    with False show ?thesis by simp
  qed
qed

lemma findAllFrom_spansOk:
  "name \<noteq> [] \<Longrightarrow> spansOk pos (findAllFrom src name pos) (length src)"
proof (induction src name pos rule: findAllFrom.induct)
  case (1 src name pos)
  show ?case
  proof (cases "length src < pos + length name")
    case True
    then show ?thesis by (subst findAllFrom.simps) simp
  next
    case False
    with "1.prems" have nf: "\<not> (name = [] \<or> length src < pos + length name)" by simp
    show ?thesis
    proof (cases "wordMatchAt src name pos")
      case True
      from "1.IH"(1) [OF nf True "1.prems"]
      have "spansOk (pos + length name) (findAllFrom src name (pos + length name)) (length src)" .
      with True nf "1.prems" show ?thesis by (subst findAllFrom.simps) simp
    next
      case False
      from "1.IH"(2) [OF nf False "1.prems"]
      have "spansOk (pos + 1) (findAllFrom src name (pos + 1)) (length src)" .
      then have "spansOk pos (findAllFrom src name (pos + 1)) (length src)"
        by (rule spansOk_mono) simp
      with False nf show ?thesis by (subst findAllFrom.simps) simp
    qed
  qed
qed

lemma isOccurrence_iff_wordMatchAt:
  assumes v: "ValidateIdentifier name = None"
  shows "isOccurrence src name i \<longleftrightarrow> wordMatchAt src name i"
proof
  assume m: "wordMatchAt src name i"
  from wordMatchAt_boundaries [OF v m] show "isOccurrence src name i"
    by (auto simp: isOccurrence_def)
next
  assume o: "isOccurrence src name i"
  from v have ne: "name \<noteq> []" and ids: "list_all isIdentChar name"
    by (rule ValidateIdentifier_chars)+
  from o have sl: "slice src i (i + length name) = name"
    and b1: "i = 0 \<or> \<not> isIdentChar (src ! (i - 1))"
    and b2: "length src \<le> i + length name \<or> \<not> isIdentChar (src ! (i + length name))"
    by (simp_all add: isOccurrence_def)
  from ne have pos: "0 < length name" by simp
  have kl: "length name - 1 < length name" using pos by simp
  have f: "i + 0 < length src" "src ! (i + 0) = name ! 0" by (rule slice_eq_nth [OF sl pos])+
  have l: "i + (length name - 1) < length src" "src ! (i + (length name - 1)) = name ! (length name - 1)"
    by (rule slice_eq_nth [OF sl kl])+
  have i0: "isIdentChar (src ! i)" using f ids pos by (simp add: list_all_length)
  have il: "isIdentChar (src ! (i + length name - 1))" using l ids pos by (simp add: list_all_length)
  have "isWordBoundary src i" using f(1) i0 b1 by (auto simp: isWordBoundary_def)
  moreover have "isWordBoundary src (i + length name)"
    using l(1) il b2 pos by (auto simp: isWordBoundary_def)
  ultimately show "wordMatchAt src name i" using sl by (simp add: wordMatchAt_def)
qed

lemma no_match_inside_match:
  assumes v: "ValidateIdentifier name = None"
    and m: "wordMatchAt src name pos"
    and k: "pos < k" "k < pos + length name"
  shows "\<not> wordMatchAt src name k"
proof
  assume mk: "wordMatchAt src name k"
  from v have ne: "name \<noteq> []" and ids: "list_all isIdentChar name"
    by (rule ValidateIdentifier_chars)+
  from m have sl: "slice src pos (pos + length name) = name" by (simp add: wordMatchAt_def)
  from k have kk: "k - 1 - pos < length name" by simp
  from slice_eq_nth [OF sl kk] k have "src ! (k - 1) = name ! (k - 1 - pos)" by simp
  with ids kk have "isIdentChar (src ! (k - 1))" by (simp add: list_all_length)
  moreover from wordMatchAt_boundaries(3) [OF v mk] k have "\<not> isIdentChar (src ! (k - 1))" by simp
  ultimately show False by simp
qed

lemma filter_upt_none:
  "(\<And>k. a \<le> k \<Longrightarrow> k < b \<Longrightarrow> \<not> P k) \<Longrightarrow> filter P [a..<b] = []"
  by (simp add: filter_empty_conv)

lemma findAllFrom_occurrences:
  "ValidateIdentifier name = None \<Longrightarrow>
   findAllFrom src name pos =
     map (\<lambda>i. (i, i + length name)) (filter (wordMatchAt src name) [pos..<length src])"
proof (induction src name pos rule: findAllFrom.induct)
  case (1 src name pos)
  note v = "1.prems"
  from v have ne: "name \<noteq> []" by (rule ValidateIdentifier_chars)
  show ?case
  proof (cases "length src < pos + length name")
    case True
    have "filter (wordMatchAt src name) [pos..<length src] = []"
    proof (rule filter_upt_none)
      fix k assume k: "pos \<le> k" "k < length src"
      show "\<not> wordMatchAt src name k"
      proof
        assume "wordMatchAt src name k"
        from wordMatchAt_boundaries(1) [OF v this] k True show False by simp
      qed
    qed
    with True show ?thesis by (subst findAllFrom.simps) simp
  next
    case False
    with ne have nf: "\<not> (name = [] \<or> length src < pos + length name)" by simp
    from False ne have lt: "pos < length src" by (cases name) auto
    have upt: "[pos..<length src] = pos # [Suc pos..<length src]"
      using lt by (rule upt_conv_Cons)
    show ?thesis
    proof (cases "wordMatchAt src name pos")
      case True
      have ih: "findAllFrom src name (pos + length name) =
          map (\<lambda>i. (i, i + length name)) (filter (wordMatchAt src name) [pos + length name..<length src])"
        by (rule "1.IH"(1) [OF nf True v])
      have "[Suc pos..<pos + length name + (length src - (pos + length name))] =
          [Suc pos..<pos + length name] @ [pos + length name..<pos + length name + (length src - (pos + length name))]"
        using ne by (intro upt_add_eq_append) (cases name, auto)
      with False have sp: "[Suc pos..<length src] = [Suc pos..<pos + length name] @ [pos + length name..<length src]"
        by simp
      have mid: "filter (wordMatchAt src name) [Suc pos..<pos + length name] = []"
      proof (rule filter_upt_none)
        fix k assume "Suc pos \<le> k" "k < pos + length name"
        then show "\<not> wordMatchAt src name k"
          using no_match_inside_match [OF v True, of k] by simp
      qed
      have "filter (wordMatchAt src name) [pos..<length src] =
          pos # filter (wordMatchAt src name) [pos + length name..<length src]"
        using True mid by (simp add: upt sp del: upt.simps)
      with ih True nf show ?thesis by (subst findAllFrom.simps) simp
    next
      case nm: False
      have ih: "findAllFrom src name (pos + 1) =
          map (\<lambda>i. (i, i + length name)) (filter (wordMatchAt src name) [pos + 1..<length src])"
        by (rule "1.IH"(2) [OF nf nm v])
      have "filter (wordMatchAt src name) [pos..<length src] =
          filter (wordMatchAt src name) [pos + 1..<length src]"
        using nm by (simp add: upt del: upt.simps)
      with ih nm nf show ?thesis by (subst findAllFrom.simps) simp
    qed
  qed
qed

lemma findAllStringIndex_occurrences:
  assumes v: "ValidateIdentifier name = None"
  shows "findAllStringIndex src name = occurrences src name"
proof -
  from v have ne: "name \<noteq> []" by (rule ValidateIdentifier_chars)
  have "isOccurrence src name = wordMatchAt src name"
    using isOccurrence_iff_wordMatchAt [OF v] by (simp add: fun_eq_iff)
  with ne findAllFrom_occurrences [OF v, of src 0] show ?thesis
    by (simp add: findAllStringIndex_def occurrences_def)
qed

lemma spansOk_bounds:
  "spansOk lo spans n \<Longrightarrow> (s, e) \<in> set spans \<Longrightarrow> lo \<le> s \<and> s < e \<and> e \<le> n"
proof (induction spans arbitrary: lo)
  case Nil
  then show ?case by simp
next
  case (Cons x spans)
  obtain s' e' where x: "x = (s', e')" by (cases x)
  from Cons.prems(1) x have b: "lo \<le> s'" "s' < e'" "e' \<le> n" and r: "spansOk e' spans n" by simp_all
  from Cons.prems(2) x have "(s, e) = (s', e') \<or> (s, e) \<in> set spans" by simp
  then show ?case
  proof
    assume "(s, e) = (s', e')"
    with b show ?thesis by simp
  next
    assume "(s, e) \<in> set spans"
    from Cons.IH [OF r this] b show ?thesis by simp
  qed
qed

lemma drop_as_nth: "lo \<le> length src \<Longrightarrow> drop lo src = map ((!) src) [lo..<length src]"
  by (metis drop_map drop_upt map_nth add_0)

lemma slice_as_nth: "lo \<le> s \<Longrightarrow> s \<le> length src \<Longrightarrow> slice src lo s = map ((!) src) [lo..<s]"
proof -
  assume a: "lo \<le> s" "s \<le> length src"
  have "slice src lo s = take (s - lo) (map ((!) src) [lo..<length src])"
    using a by (simp add: slice_def drop_as_nth)
  also have "\<dots> = map ((!) src) (take (s - lo) [lo..<length src])" by (simp add: take_map)
  also have "take (s - lo) [lo..<length src] = [lo..<s]" using a by (simp add: take_upt)
  finally show ?thesis .
qed

lemma concat_singletons: "concat (map (\<lambda>i. [f i]) xs) = map f xs"
  by (induction xs) auto

lemma piece_outside:
  assumes "spansOk lo spans n" "i < lo"
  shows "piece src newName spans i = [src ! i]"
proof -
  have "\<And>s e. (s, e) \<in> set spans \<Longrightarrow> i < s"
    using spansOk_bounds [OF assms(1)] assms(2) by fastforce
  then have "i \<notin> set (map fst spans)" "\<not> list_ex (\<lambda>(s, e). s < i \<and> i < e) spans"
    by (fastforce simp: list_ex_iff)+
  then show ?thesis by (simp add: piece_def)
qed

lemma piece_Cons_after:
  assumes "s < e" "e \<le> i"
  shows "piece src newName ((s, e) # spans) i = piece src newName spans i"
  using assms by (simp add: piece_def)

lemma spliceFrom_pieces:
  "spansOk lo spans (length src) \<Longrightarrow> lo \<le> length src \<Longrightarrow>
   spliceFrom src newName spans lo = concat (map (piece src newName spans) [lo..<length src])"
proof (induction spans arbitrary: lo)
  case Nil
  have "piece src newName [] = (\<lambda>i. [src ! i])"
    by (simp add: piece_def fun_eq_iff)
  then have "concat (map (piece src newName []) [lo..<length src]) = map ((!) src) [lo..<length src]"
    by (simp only: concat_singletons)
  then show ?case using Nil by (simp add: drop_as_nth)
next
  case (Cons x spans)
  obtain s e where x: "x = (s, e)" by (cases x)
  from Cons.prems x have b: "lo \<le> s" "s < e" "e \<le> length src" and r: "spansOk e spans (length src)"
    by simp_all
  let ?p = "piece src newName ((s, e) # spans)"
  have u1: "[lo..<length src] = [lo..<s] @ [s..<length src]"
    using b by (metis le_add_diff_inverse less_imp_le_nat order_trans upt_add_eq_append)
  have u2: "[s..<length src] = s # [Suc s..<length src]" using b by (intro upt_conv_Cons) simp
  have u3: "[Suc s..<length src] = [Suc s..<e] @ [e..<length src]"
    using b by (metis Suc_leI le_add_diff_inverse upt_add_eq_append)
  have p1: "map ?p [lo..<s] = map (\<lambda>i. [src ! i]) [lo..<s]"
  proof (rule map_cong [OF refl])
    fix i assume "i \<in> set [lo..<s]"
    then have "i < s" by simp
    moreover have "spansOk s ((s, e) # spans) (length src)" using b r by simp
    ultimately show "?p i = [src ! i]" by (rule piece_outside [rotated])
  qed
  have c1: "concat (map ?p [lo..<s]) = slice src lo s"
  proof -
    have "concat (map (\<lambda>i. [src ! i]) [lo..<s]) = map ((!) src) [lo..<s]"
      by (rule concat_singletons)
    then have "concat (map ?p [lo..<s]) = map ((!) src) [lo..<s]" by (simp only: p1)
    then show ?thesis using b by (simp only: slice_as_nth [of lo s src])
  qed
  have c2: "?p s = newName" by (simp add: piece_def)
  have c3: "concat (map ?p [Suc s..<e]) = []"
  proof -
    have "\<And>i. i \<in> set [Suc s..<e] \<Longrightarrow> ?p i = []"
    proof -
      fix i assume "i \<in> set [Suc s..<e]"
      then have i: "s < i" "i < e" by simp_all
      have "\<And>s' e'. (s', e') \<in> set spans \<Longrightarrow> i < s'"
        using spansOk_bounds [OF r] i by fastforce
      then have "i \<notin> set (map fst ((s, e) # spans))" using i by fastforce
      then show "?p i = []" using i by (simp add: piece_def)
    qed
    then show ?thesis by simp
  qed
  have c4: "map ?p [e..<length src] = map (piece src newName spans) [e..<length src]"
  proof (rule map_cong [OF refl])
    fix i assume "i \<in> set [e..<length src]"
    then have "e \<le> i" by simp
    with b show "?p i = piece src newName spans i" by (intro piece_Cons_after) simp_all
  qed
  have ih: "spliceFrom src newName spans e = concat (map (piece src newName spans) [e..<length src])"
    using Cons.IH [OF r] b by simp
  have "concat (map ?p [lo..<length src]) =
      concat (map ?p [lo..<s]) @ ?p s @ concat (map ?p [Suc s..<e]) @ concat (map ?p [e..<length src])"
    by (simp only: u1 u2 u3 map_append concat_append list.map concat.simps append_assoc)
  also have "\<dots> = slice src lo s @ newName @ spliceFrom src newName spans e"
    by (simp only: c1 c2 c3 c4 ih append_Nil)
  finally show ?case using x by simp
qed

section \<open>Tokens under a rename\<close>

lemma tokens_concat: "concat (tokens xs) = xs"
  by (induction xs rule: tokens.induct) simp_all

lemma tokens_nonident_mid:
  "\<not> isIdentChar c \<Longrightarrow> tokens (xs @ c # ys) = tokens xs @ [c] # tokens ys"
proof (induction xs rule: tokens.induct)
  case 1
  then show ?case by simp
next
  case (2 x xs)
  show ?case
  proof (cases "isIdentChar x")
    case True
    have "takeWhile isIdentChar (xs @ c # ys) = takeWhile isIdentChar xs"
      using "2.prems" by (rule takeWhile_tail)
    moreover have "dropWhile isIdentChar (xs @ c # ys) = dropWhile isIdentChar xs @ c # ys"
      using "2.prems" by (rule dropWhile_append3)
    ultimately show ?thesis using True "2.IH"(1) [OF True "2.prems"] by simp
  next
    case False
    then show ?thesis using "2.IH"(2) [OF False "2.prems"] by simp
  qed
qed

lemma tokens_word:
  assumes "w \<noteq> []" "list_all isIdentChar w" "startsNonIdent ys"
  shows "tokens (w @ ys) = w # tokens ys"
proof -
  from assms(1) obtain a w' where w: "w = a # w'" by (cases w) auto
  from assms(2) w have a: "isIdentChar a" and w': "\<And>x. x \<in> set w' \<Longrightarrow> isIdentChar x"
    by (auto simp: list_all_iff)
  from assms(3) have t: "takeWhile isIdentChar ys = []" and d: "dropWhile isIdentChar ys = ys"
    by (cases ys; simp add: startsNonIdent_def)+
  have "takeWhile isIdentChar (w' @ ys) = w' @ takeWhile isIdentChar ys"
    using w' by (rule takeWhile_append2)
  moreover have "dropWhile isIdentChar (w' @ ys) = dropWhile isIdentChar ys"
    using w' by (rule dropWhile_append2)
  ultimately show ?thesis using w a t d by simp
qed

lemma tokens_append_start:
  assumes "startsNonIdent ys"
  shows "tokens (xs @ ys) = tokens xs @ tokens ys"
proof (cases ys)
  case Nil
  then show ?thesis by simp
next
  case (Cons c ys')
  with assms have "\<not> isIdentChar c" by (simp add: startsNonIdent_def)
  then show ?thesis using Cons by (simp add: tokens_nonident_mid)
qed

lemma tokens_append_end:
  assumes "endsNonIdent xs"
  shows "tokens (xs @ ys) = tokens xs @ tokens ys"
proof (cases "xs = []")
  case True
  then show ?thesis by simp
next
  case False
  with assms have c: "\<not> isIdentChar (last xs)" by (simp add: endsNonIdent_def)
  from False have xs: "xs = butlast xs @ [last xs]" by simp
  have a: "tokens (xs @ ys) = tokens (butlast xs @ last xs # ys)"
    by (subst xs) simp
  have b: "tokens (butlast xs @ last xs # ys) = tokens (butlast xs) @ [last xs] # tokens ys"
    using c by (rule tokens_nonident_mid)
  have "tokens xs = tokens (butlast xs @ last xs # [])"
    using xs by simp
  also have "\<dots> = tokens (butlast xs) @ [[last xs]]"
    using tokens_nonident_mid [OF c, of "butlast xs" "[]"] by simp
  finally show ?thesis using a b by simp
qed

lemma renamedToken_nonident:
  assumes "list_all isIdentChar oldName" "\<not> isIdentChar c" "renamedToken oldName newName [c] t"
  shows "t = [c]"
  using assms by (auto simp: renamedToken_def)

lemma renamed_startsNonIdent:
  assumes r: "list_all2 (renamedToken oldName newName) (tokens xs) (tokens ys)"
    and old: "list_all isIdentChar oldName"
    and s: "startsNonIdent xs"
  shows "startsNonIdent ys"
proof (cases xs)
  case Nil
  with r have "tokens ys = []" by simp
  then have "concat (tokens ys) = []" by simp
  then show ?thesis by (simp add: tokens_concat startsNonIdent_def)
next
  case (Cons c xs')
  with s have c: "\<not> isIdentChar c" by (simp add: startsNonIdent_def)
  with Cons have "tokens xs = [c] # tokens xs'" by simp
  with r obtain t ts where ys: "tokens ys = t # ts" and t: "renamedToken oldName newName [c] t"
    by (auto simp: list_all2_Cons1)
  from renamedToken_nonident [OF old c t] have "t = [c]" .
  with ys have "concat (tokens ys) = c # concat ts" by simp
  then have "ys = c # concat ts" by (simp add: tokens_concat)
  with c show ?thesis by (simp add: startsNonIdent_def)
qed

lemma renamed_endsNonIdent:
  assumes r: "list_all2 (renamedToken oldName newName) (tokens xs) (tokens ys)"
    and old: "list_all isIdentChar oldName"
    and s: "endsNonIdent xs"
  shows "endsNonIdent ys"
proof (cases "xs = []")
  case True
  with r have "tokens ys = []" by simp
  then have "concat (tokens ys) = []" by simp
  then show ?thesis by (simp add: tokens_concat endsNonIdent_def)
next
  case False
  with s have c: "\<not> isIdentChar (last xs)" by (simp add: endsNonIdent_def)
  from False have "xs = butlast xs @ [last xs]" by simp
  then have "tokens xs = tokens (butlast xs @ last xs # [])" by simp
  also have "\<dots> = tokens (butlast xs) @ [[last xs]]"
    using tokens_nonident_mid [OF c, of "butlast xs" "[]"] by simp
  finally have tx: "tokens xs = tokens (butlast xs) @ [[last xs]]" .
  with r obtain us t where ys: "tokens ys = us @ [t]" and t: "renamedToken oldName newName [last xs] t"
    by (auto simp: list_all2_append1 list_all2_Cons1)
  from renamedToken_nonident [OF old c t] have "t = [last xs]" .
  with ys have "concat (tokens ys) = concat us @ [last xs]" by simp
  then have "ys = concat us @ [last xs]" by (simp add: tokens_concat)
  with c show ?thesis by (simp add: endsNonIdent_def)
qed

lemma renamedToken_refl: "list_all2 (renamedToken oldName newName) ts ts"
  by (rule list_all2_refl) (simp add: renamedToken_def)

lemma renamedToken_trans:
  assumes "list_all2 (renamedToken oldName newName) as bs"
    and "list_all2 (renamedToken oldName newName) bs cs"
  shows "list_all2 (renamedToken oldName newName) as cs"
proof -
  have "\<And>a b c. renamedToken oldName newName a b \<Longrightarrow> renamedToken oldName newName b c
      \<Longrightarrow> renamedToken oldName newName a c"
    by (auto simp: renamedToken_def)
  from list_all2_trans [OF this assms] show ?thesis .
qed

lemma drop_split_at_span:
  assumes "lo \<le> s" "s \<le> e" "e \<le> length src"
  shows "drop lo src = slice src lo s @ slice src s e @ drop e src"
proof -
  have "drop lo src = take (s - lo) (drop lo src) @ drop s src"
    using append_take_drop_id [of "s - lo" "drop lo src"] assms by simp
  moreover have "drop s src = take (e - s) (drop s src) @ drop e src"
    using append_take_drop_id [of "e - s" "drop s src"] assms by simp
  ultimately show ?thesis by (simp add: slice_def)
qed

lemma splice_head:
  assumes old: "oldName \<noteq> []" "list_all isIdentChar oldName"
    and new: "newName \<noteq> []" "list_all isIdentChar newName"
    and b: "lo \<le> s" "s < e" "e \<le> length src"
    and e: "e = s + length oldName" and o: "isOccurrence src oldName s"
    and rel: "list_all2 (renamedToken oldName newName) (tokens (drop e src)) (tokens rest)"
  shows "tokens (drop lo src) = tokens (slice src lo s) @ oldName # tokens (drop e src)"
    and "tokens (slice src lo s @ newName @ rest) = tokens (slice src lo s) @ newName # tokens rest"
proof -
  from o e have sl: "slice src s e = oldName"
    and b1: "s = 0 \<or> \<not> isIdentChar (src ! (s - 1))"
    and b2: "length src \<le> e \<or> \<not> isIdentChar (src ! e)"
    by (simp_all add: isOccurrence_def)
  let ?G = "slice src lo s" and ?X = "drop e src"
  have G: "endsNonIdent ?G"
  proof (cases "lo = s")
    case True
    then show ?thesis by (simp add: endsNonIdent_def slice_def)
  next
    case False
    with b have ls: "lo < s" by simp
    from b have "s \<le> length src" by simp
    with ls b have "?G = map ((!) src) [lo..<s]" by (intro slice_as_nth) simp_all
    also have "[lo..<s] = [lo..<s - 1] @ [s - 1]" using ls by (cases s) auto
    finally have "last ?G = src ! (s - 1)" by simp
    moreover have "?G \<noteq> []" using ls b by (simp add: slice_def)
    ultimately show ?thesis using b1 ls by (simp add: endsNonIdent_def)
  qed
  have X: "startsNonIdent ?X"
  proof (cases "e < length src")
    case True
    then have "hd (drop e src) = src ! e" by (simp add: hd_drop_conv_nth)
    with b2 True show ?thesis by (simp add: startsNonIdent_def)
  next
    case False
    then show ?thesis by (simp add: startsNonIdent_def)
  qed
  have X': "startsNonIdent rest" by (rule renamed_startsNonIdent [OF rel old(2) X])
  have src_split: "drop lo src = ?G @ oldName @ ?X"
    using drop_split_at_span [of lo s e src] b sl by simp
  show "tokens (drop lo src) = tokens ?G @ oldName # tokens ?X"
    by (simp only: src_split tokens_append_end [OF G] tokens_word [OF old X])
  show "tokens (?G @ newName @ rest) = tokens ?G @ newName # tokens rest"
    by (simp only: tokens_append_end [OF G] tokens_word [OF new X'])
qed

lemma splice_tokens:
  assumes old: "oldName \<noteq> []" "list_all isIdentChar oldName"
    and new: "newName \<noteq> []" "list_all isIdentChar newName"
  shows "spansOk lo spans (length src) \<Longrightarrow>
         (\<And>s e. (s, e) \<in> set spans \<Longrightarrow> e = s + length oldName \<and> isOccurrence src oldName s) \<Longrightarrow>
         list_all2 (renamedToken oldName newName)
           (tokens (drop lo src)) (tokens (spliceFrom src newName spans lo))"
proof (induction spans arbitrary: lo)
  case Nil
  show ?case by (simp add: renamedToken_refl)
next
  case (Cons x spans)
  obtain s e where x: "x = (s, e)" by (cases x)
  from Cons.prems(1) x have b: "lo \<le> s" "s < e" "e \<le> length src" and r: "spansOk e spans (length src)"
    by simp_all
  from Cons.prems(2) [of s e] x have e: "e = s + length oldName" and o: "isOccurrence src oldName s"
    by simp_all
  have mem: "\<And>s' e'. (s', e') \<in> set spans \<Longrightarrow> e' = s' + length oldName \<and> isOccurrence src oldName s'"
  proof -
    fix s' e' assume "(s', e') \<in> set spans"
    then have "(s', e') \<in> set (x # spans)" by simp
    then show "e' = s' + length oldName \<and> isOccurrence src oldName s'" by (rule Cons.prems(2))
  qed
  let ?G = "slice src lo s" and ?X = "drop e src" and ?X' = "spliceFrom src newName spans e"
  have ih: "list_all2 (renamedToken oldName newName) (tokens ?X) (tokens ?X')"
    by (rule Cons.IH [OF r mem])
  note t = splice_head [OF old new b e o ih]
  have "list_all2 (renamedToken oldName newName) (oldName # tokens ?X) (newName # tokens ?X')"
    using ih by (simp add: renamedToken_def)
  with renamedToken_refl [of oldName newName "tokens ?G"]
  have "list_all2 (renamedToken oldName newName)
      (tokens ?G @ oldName # tokens ?X) (tokens ?G @ newName # tokens ?X')"
    by (rule list_all2_appendI)
  then show ?case by (simp only: t x spliceFrom.simps)
qed

lemma singlePassRename_tokens:
  assumes v: "ValidateIdentifier oldName = None" and w: "ValidateIdentifier newName = None"
  shows "list_all2 (renamedToken oldName newName)
           (tokens src) (tokens (fst (singlePassRename src oldName newName contextFn)))"
proof -
  note old = ValidateIdentifier_chars [OF v] and new = ValidateIdentifier_chars [OF w]
  let ?acc = "accepted contextFn src (findAllStringIndex src oldName)"
  have "spansOk 0 (findAllFrom src oldName 0) (length src)"
    by (rule findAllFrom_spansOk [OF old(1)])
  with old(1) have "spansOk 0 (findAllStringIndex src oldName) (length src)"
    by (simp add: findAllStringIndex_def)
  then have ok: "spansOk 0 ?acc (length src)" unfolding accepted_def by (rule spansOk_filter)
  have mem: "\<And>s e. (s, e) \<in> set ?acc \<Longrightarrow> e = s + length oldName \<and> isOccurrence src oldName s"
  proof -
    fix s e assume "(s, e) \<in> set ?acc"
    then have m: "(s, e) \<in> set (findAllStringIndex src oldName)" by (simp add: accepted_def)
    from match_boundaries [OF v m] show "e = s + length oldName \<and> isOccurrence src oldName s"
      by (auto simp: isOccurrence_def)
  qed
  from splice_tokens [OF old new ok mem]
  show ?thesis by (simp add: singlePassRename_def singlePassLoop_splice)
qed

section \<open>The scope of a function header\<close>

lemma matchLoop_Some:
  "matchLoop opn cls src i d = Some j \<Longrightarrow> i \<le> j \<and> j < length src \<and> src ! j = cls"
proof (induction opn cls src i d rule: matchLoop.induct)
  case (1 opn cls src i d)
  from "1.prems" have lt: "i < length src"
    by (subst (asm) matchLoop.simps) (simp split: if_splits)
  show ?case
  proof (cases "src ! i = opn")
    case True
    with lt "1.prems" have "matchLoop opn cls src (i + 1) (d + 1) = Some j"
      by (subst (asm) matchLoop.simps) simp
    from "1.IH"(1) [OF lt True this] show ?thesis by simp
  next
    case no: False
    show ?thesis
    proof (cases "src ! i = cls")
      case c: True
      show ?thesis
      proof (cases "d - 1 = 0")
        case True
        with lt no c "1.prems" have "j = i" by (subst (asm) matchLoop.simps) simp
        with lt c show ?thesis by simp
      next
        case False
        with lt no c "1.prems" have "matchLoop opn cls src (i + 1) (d - 1) = Some j"
          by (subst (asm) matchLoop.simps) simp
        from "1.IH"(2) [OF lt no c False this] show ?thesis by simp
      qed
    next
      case nc: False
      with lt no "1.prems" have "matchLoop opn cls src (i + 1) d = Some j"
        by (subst (asm) matchLoop.simps) simp
      from "1.IH"(3) [OF lt no nc this] show ?thesis by simp
    qed
  qed
qed

lemma skipWhitespace_ge: "i \<le> skipWhitespace src i"
proof (induction src i rule: skipWhitespace.induct)
  case (1 src i)
  show ?case
  proof (cases "i < length src \<and>
         (src ! i = CHR '' '' \<or> src ! i = CHR 0x09 \<or> src ! i = CHR 0x0A \<or> src ! i = CHR 0x0D)")
    case True
    from "1.IH" [OF True] have "i + 1 \<le> skipWhitespace src (i + 1)" .
    moreover have "skipWhitespace src i = skipWhitespace src (i + 1)"
      by (subst skipWhitespace.simps) (rule if_P [OF True])
    ultimately show ?thesis by simp
  next
    case False
    have "skipWhitespace src i = i"
      by (subst skipWhitespace.simps) (rule if_not_P [OF False])
    then show ?thesis by simp
  qed
qed

lemma skipReturnType_ge: "i \<le> skipReturnType src i"
proof (induction src i rule: skipReturnType.induct)
  case (1 src i)
  show ?case
  proof (cases "i < length src \<and> src ! i \<noteq> CHR ''{'' \<and> src ! i \<noteq> CHR ''='' \<and> src ! i \<noteq> CHR 0x0A")
    case True
    from "1.IH" [OF True] have "i + 1 \<le> skipReturnType src (i + 1)" .
    moreover have "skipReturnType src i = skipReturnType src (i + 1)"
      by (subst skipReturnType.simps) (rule if_P [OF True])
    ultimately show ?thesis by simp
  next
    case False
    have "skipReturnType src i = i"
      by (subst skipReturnType.simps) (rule if_not_P [OF False])
    then show ?thesis by simp
  qed
qed

lemma nonident_delims:
  "\<not> isIdentChar (CHR ''('')" "\<not> isIdentChar (CHR '')'')" "\<not> isIdentChar (CHR ''}'')"
  "\<not> isIdentChar (CHR 0x0A)"
  by (simp_all add: isIdentChar_def)

lemma findFunctionBody_Some:
  assumes "findFunctionBody src a = Some (bs, be)"
  shows "a \<le> bs \<and> bs < be \<and> be \<le> length src \<and> (be = length src \<or> \<not> isIdentChar (src ! (be - 1)))"
proof -
  define i0 where "i0 = skipWhitespace src a"
  define i where "i = (if i0 < length src \<and> src ! i0 = CHR '':'' then skipReturnType src i0 else i0)"
  have ai: "a \<le> i"
    using skipWhitespace_ge [of a src] skipReturnType_ge [of i0 src] by (auto simp: i_def i0_def)
  have "findFunctionBody src a = (if length src \<le> i then None
         else if src ! i = CHR ''{'' then
           (case findMatchingBrace src i of None \<Rightarrow> None | Some e \<Rightarrow> Some (i, e + 1))
         else if src ! i = CHR ''='' then
           (case IndexByte (drop i src) (CHR 0x0A) of
              None \<Rightarrow> Some (i, length src)
            | Some lineEnd \<Rightarrow> Some (i, i + lineEnd + 1))
         else None)"
    by (simp only: findFunctionBody_def Let_def i_def i0_def)
  with assms have f: "(if length src \<le> i then None
         else if src ! i = CHR ''{'' then
           (case findMatchingBrace src i of None \<Rightarrow> None | Some e \<Rightarrow> Some (i, e + 1))
         else if src ! i = CHR ''='' then
           (case IndexByte (drop i src) (CHR 0x0A) of
              None \<Rightarrow> Some (i, length src)
            | Some lineEnd \<Rightarrow> Some (i, i + lineEnd + 1))
         else None) = Some (bs, be)"
    by simp
  then have lt: "i < length src" by (simp split: if_splits)
  show ?thesis
  proof (cases "src ! i = CHR ''{''")
    case True
    with f lt obtain e where e: "findMatchingBrace src i = Some e" and r: "bs = i" "be = e + 1"
      by (auto split: option.splits)
    from matchLoop_Some [OF e [unfolded findMatchingBrace_def]]
    have "i \<le> e" "e < length src" "src ! e = CHR ''}''" by simp_all
    with r ai show ?thesis by (simp add: nonident_delims)
  next
    case nb: False
    show ?thesis
    proof (cases "src ! i = CHR ''=''")
      case True
      show ?thesis
      proof (cases "IndexByte (drop i src) (CHR 0x0A)")
        case None
        with f lt nb True have "bs = i" "be = length src" by simp_all
        with lt ai show ?thesis by simp
      next
        case (Some le)
        with f lt nb True have r: "bs = i" "be = i + le + 1" by simp_all
        from IndexByte_Some [OF Some] have "le < length (drop i src)" "drop i src ! le = CHR 0x0A"
          by simp_all
        then have "i + le < length src" "src ! (i + le) = CHR 0x0A" by simp_all
        with r ai show ?thesis by (simp add: nonident_delims)
      qed
    next
      case False
      with f lt nb show ?thesis by simp
    qed
  qed
qed

lemma renameHeader_cases:
  assumes "renameHeader oldName newName st loc0 = Inr st'"
  shows "st' = st \<or>
    (\<exists>po pc be. po < length (result st) \<and> result st ! po = CHR ''('' \<and>
       findMatchingParen (result st) po = Some pc \<and>
       be = (case findFunctionBody (result st) (pc + 1) of None \<Rightarrow> pc + 1 | Some (bodyStart, bodyEnd) \<Rightarrow> bodyEnd) \<and>
       result st' = take po (result st) @
          fst (singlePassRename (slice (result st) po be) oldName newName isParameterContext) @
          drop be (result st) \<and>
       total st' = total st +
          snd (singlePassRename (slice (result st) po be) oldName newName isParameterContext))"
proof -
  let ?fs = "nat (int loc0 + offset st)"
  from assms have range: "\<not> (int loc0 + offset st < 0 \<or> int (length (result st)) < int loc0 + offset st)"
    by (auto simp: renameHeader_def Let_def)
  show ?thesis
  proof (cases "IndexByte (drop ?fs (result st)) (CHR ''('')")
    case None
    with assms range show ?thesis by (simp add: renameHeader_def Let_def)
  next
    case (Some p)
    from IndexByte_Some [OF Some] have "p < length (drop ?fs (result st))" "drop ?fs (result st) ! p = CHR ''(''"
      by simp_all
    then have po: "p + ?fs < length (result st)" "result st ! (p + ?fs) = CHR ''(''"
      by (simp_all add: add.commute)
    show ?thesis
    proof (cases "findMatchingParen (result st) (p + ?fs)")
      case None
      with assms range Some show ?thesis by (simp add: renameHeader_def Let_def)
    next
      case pc: (Some pc)
      let ?be = "case findFunctionBody (result st) (pc + 1) of None \<Rightarrow> pc + 1 | Some (bodyStart, bodyEnd) \<Rightarrow> bodyEnd"
      obtain renamed n where sp: "singlePassRename (slice (result st) (p + ?fs) ?be) oldName newName isParameterContext = (renamed, n)"
        by (cases "singlePassRename (slice (result st) (p + ?fs) ?be) oldName newName isParameterContext")
      from assms range Some pc sp
      have "st' = st \<or> st' = \<lparr>result = take (p + ?fs) (result st) @ renamed @ drop ?be (result st),
                offset = offset st + (int (length renamed) - int (length (slice (result st) (p + ?fs) ?be))),
                total = total st + n\<rparr>"
        by (simp add: renameHeader_def Let_def split: if_splits)
      then show ?thesis
      proof
        assume "st' = st" then show ?thesis by simp
      next
        assume "st' = \<lparr>result = take (p + ?fs) (result st) @ renamed @ drop ?be (result st),
                offset = offset st + (int (length renamed) - int (length (slice (result st) (p + ?fs) ?be))),
                total = total st + n\<rparr>"
        then have "result st' = take (p + ?fs) (result st) @
          fst (singlePassRename (slice (result st) (p + ?fs) ?be) oldName newName isParameterContext) @
          drop ?be (result st)"
          and "total st' = total st +
          snd (singlePassRename (slice (result st) (p + ?fs) ?be) oldName newName isParameterContext)"
          using sp by simp_all
        with po pc show ?thesis by blast
      qed
    qed
  qed
qed

lemma renameHeader_scope:
  assumes v: "ValidateIdentifier oldName = None" and w: "ValidateIdentifier newName = None"
    and h: "renameHeader oldName newName st loc0 = Inr st'"
  shows "st' = st \<or>
    (\<exists>before scope after.
       tokens (result st) = before @ tokens scope @ after \<and>
       tokens (result st') =
         before @ tokens (fst (singlePassRename scope oldName newName isParameterContext)) @ after \<and>
       total st' = total st + snd (singlePassRename scope oldName newName isParameterContext))"
proof -
  note old = ValidateIdentifier_chars [OF v]
  let ?R = "list_all2 (renamedToken oldName newName)"
  let ?res = "result st"
  from renameHeader_cases [OF h] show ?thesis
  proof
    assume "st' = st"
    then show ?thesis by simp
  next
    assume "\<exists>po pc be. po < length ?res \<and> ?res ! po = CHR ''('' \<and>
       findMatchingParen ?res po = Some pc \<and>
       be = (case findFunctionBody ?res (pc + 1) of None \<Rightarrow> pc + 1 | Some (bodyStart, bodyEnd) \<Rightarrow> bodyEnd) \<and>
       result st' = take po ?res @
          fst (singlePassRename (slice ?res po be) oldName newName isParameterContext) @
          drop be ?res \<and>
       total st' = total st +
          snd (singlePassRename (slice (result st) po be) oldName newName isParameterContext)"
    then obtain po pc be where po: "po < length ?res" "?res ! po = CHR ''(''"
      and pc: "findMatchingParen ?res po = Some pc"
      and be: "be = (case findFunctionBody ?res (pc + 1) of None \<Rightarrow> pc + 1 | Some (bodyStart, bodyEnd) \<Rightarrow> bodyEnd)"
      and r: "result st' = take po ?res @
          fst (singlePassRename (slice ?res po be) oldName newName isParameterContext) @ drop be ?res"
      and t: "total st' = total st +
          snd (singlePassRename (slice (result st) po be) oldName newName isParameterContext)"
      by blast
    let ?scope = "slice ?res po be"
    let ?renamed = "fst (singlePassRename ?scope oldName newName isParameterContext)"
    let ?post = "drop be ?res"
    from matchLoop_Some [OF pc [unfolded findMatchingParen_def]]
    have pcb: "po \<le> pc" "pc < length ?res" "?res ! pc = CHR '')''" by simp_all
    have beb: "po < be \<and> be \<le> length ?res \<and> (be = length ?res \<or> \<not> isIdentChar (?res ! (be - 1)))"
    proof (cases "findFunctionBody ?res (pc + 1)")
      case None
      with be have "be = pc + 1" by simp
      with pcb show ?thesis by (simp add: nonident_delims)
    next
      case (Some b)
      obtain bs be' where b: "b = (bs, be')" by (cases b)
      with Some be have "be = be'" by simp
      with findFunctionBody_Some [OF Some [unfolded b]] pcb show ?thesis by simp
    qed
    then have b1: "po < be" and b2: "be \<le> length ?res"
      and b3: "be = length ?res \<or> \<not> isIdentChar (?res ! (be - 1))" by simp_all
    have sc: "?scope = map ((!) ?res) [po..<be]"
      using b1 b2 by (intro slice_as_nth) simp_all
    have upt1: "[po..<be] = po # [Suc po..<be]" using b1 by (rule upt_conv_Cons)
    have upt2: "[po..<be] = [po..<be - 1] @ [be - 1]" using b1 by (cases be) auto
    have hd_scope: "?scope \<noteq> []" "hd ?scope = CHR ''(''"
      using po by (simp_all add: sc upt1 del: upt.simps)
    have "last (map ((!) ?res) ([po..<be - 1] @ [be - 1])) = ?res ! (be - 1)" by simp
    then have last_scope: "last ?scope = ?res ! (be - 1)" by (simp only: sc upt2 [symmetric])
    have split: "?res = take po ?res @ ?scope @ ?post"
    proof -
      have "drop po ?res = slice ?res po po @ ?scope @ ?post"
        using b1 b2 by (intro drop_split_at_span) simp_all
      then have "drop po ?res = ?scope @ ?post" by (simp add: slice_def)
      with append_take_drop_id [of po ?res] show ?thesis by simp
    qed
    have rel: "?R (tokens ?scope) (tokens ?renamed)"
      by (rule singlePassRename_tokens [OF v w])
    have inner: "tokens (?scope @ ?post) = tokens ?scope @ tokens ?post \<and>
                 tokens (?renamed @ ?post) = tokens ?renamed @ tokens ?post"
    proof (cases "?post = []")
      case True
      then show ?thesis by simp
    next
      case False
      with b2 b3 have "\<not> isIdentChar (?res ! (be - 1))" by auto
      with last_scope have e1: "endsNonIdent ?scope" by (simp add: endsNonIdent_def)
      from renamed_endsNonIdent [OF rel old(2) e1] have e2: "endsNonIdent ?renamed" .
      show ?thesis by (simp only: tokens_append_end [OF e1] tokens_append_end [OF e2])
    qed
    from rel renamedToken_refl [of oldName newName "tokens ?post"]
    have "?R (tokens ?scope @ tokens ?post) (tokens ?renamed @ tokens ?post)"
      by (rule list_all2_appendI)
    then have step1: "?R (tokens (?scope @ ?post)) (tokens (?renamed @ ?post))"
      by (simp only: inner)
    have s1: "startsNonIdent (?scope @ ?post)"
      using hd_scope by (simp add: startsNonIdent_def nonident_delims)
    from renamed_startsNonIdent [OF step1 old(2) s1] have s2: "startsNonIdent (?renamed @ ?post)" .
    have "tokens (take po ?res @ ?scope @ ?post) = tokens (take po ?res) @ tokens ?scope @ tokens ?post"
      by (simp only: tokens_append_start [OF s1] inner)
    with split have a: "tokens ?res = tokens (take po ?res) @ tokens ?scope @ tokens ?post" by simp
    have "tokens (take po ?res @ ?renamed @ ?post) = tokens (take po ?res) @ tokens ?renamed @ tokens ?post"
      by (simp only: tokens_append_start [OF s2] inner)
    with r have b: "tokens (result st') = tokens (take po ?res) @ tokens ?renamed @ tokens ?post" by simp
    from a b t show ?thesis by blast
  qed
qed

lemma renameHeader_tokens:
  assumes v: "ValidateIdentifier oldName = None" and w: "ValidateIdentifier newName = None"
    and h: "renameHeader oldName newName st loc0 = Inr st'"
  shows "list_all2 (renamedToken oldName newName) (tokens (result st)) (tokens (result st'))"
proof -
  from renameHeader_scope [OF v w h] show ?thesis
  proof
    assume "st' = st"
    then show ?thesis by (simp add: renamedToken_refl)
  next
    assume "\<exists>before scope after.
       tokens (result st) = before @ tokens scope @ after \<and>
       tokens (result st') =
         before @ tokens (fst (singlePassRename scope oldName newName isParameterContext)) @ after \<and>
       total st' = total st + snd (singlePassRename scope oldName newName isParameterContext)"
    then obtain before scope after where a: "tokens (result st) = before @ tokens scope @ after"
      and b: "tokens (result st') =
         before @ tokens (fst (singlePassRename scope oldName newName isParameterContext)) @ after"
      by blast
    have "list_all2 (renamedToken oldName newName)
        (tokens scope @ after)
        (tokens (fst (singlePassRename scope oldName newName isParameterContext)) @ after)"
      using singlePassRename_tokens [OF v w] renamedToken_refl by (rule list_all2_appendI)
    with renamedToken_refl have "list_all2 (renamedToken oldName newName)
        (before @ tokens scope @ after)
        (before @ tokens (fst (singlePassRename scope oldName newName isParameterContext)) @ after)"
      by (rule list_all2_appendI)
    then show ?thesis by (simp only: a b)
  qed
qed

lemma renameLoop_tokens:
  assumes v: "ValidateIdentifier oldName = None" and w: "ValidateIdentifier newName = None"
  shows "renameLoop oldName newName locs st = Inr st' \<Longrightarrow>
         list_all2 (renamedToken oldName newName) (tokens (result st)) (tokens (result st'))"
proof (induction locs arbitrary: st)
  case Nil
  then show ?case by (simp add: renamedToken_refl)
next
  case (Cons loc locs)
  show ?case
  proof (cases "renameHeader oldName newName st (fst loc)")
    case (Inl e)
    with Cons.prems show ?thesis by simp
  next
    case (Inr st1)
    with Cons.prems have "renameLoop oldName newName locs st1 = Inr st'" by simp
    from renamedToken_trans [OF renameHeader_tokens [OF v w Inr] Cons.IH [OF this]]
    show ?thesis .
  qed
qed

lemma renameParameters_loop:
  assumes "renameParameters src oldName newName = Inr (out, n)"
  obtains st' where "renameLoop oldName newName (findAllStringIndex src ''fun'')
             \<lparr>result = src, offset = 0, total = 0\<rparr> = Inr st'" "out = result st'" "n = total st'"
  using assms by (auto simp: renameParameters_def split: sum.splits)

lemma renameParameters_tokens:
  assumes v: "ValidateIdentifier oldName = None" and w: "ValidateIdentifier newName = None"
    and r: "renameParameters src oldName newName = Inr (out, n)"
  shows "list_all2 (renamedToken oldName newName) (tokens src) (tokens out)"
proof -
  from r obtain st' where l: "renameLoop oldName newName (findAllStringIndex src ''fun'')
             \<lparr>result = src, offset = 0, total = 0\<rparr> = Inr st'" and o: "out = result st'"
    by (rule renameParameters_loop)
  from renameLoop_tokens [OF v w l] o show ?thesis by simp
qed

section \<open>The outcome of a rename\<close>

text \<open>
  For a target that is a valid identifier and any context predicate, the count of the
  single-pass rename is the number of occurrences of the target that the predicate
  accepts, and the output is the input with exactly those spans replaced by the new
  name; every byte outside them is the byte of the input. This is the driver of the
  class, method and property kinds; the parameter kind calls it on one scope after the
  other.
\<close>

theorem singlePassRename_exact:
  assumes v: "ValidateIdentifier oldName = None"
  shows "singlePassRename src oldName newName contextFn =
           (replaceSpans src newName (accepted contextFn src (occurrences src oldName)),
            length (accepted contextFn src (occurrences src oldName)))"
proof -
  from v have ne: "oldName \<noteq> []" by (rule ValidateIdentifier_chars)
  let ?acc = "accepted contextFn src (occurrences src oldName)"
  have occ: "findAllStringIndex src oldName = occurrences src oldName"
    by (rule findAllStringIndex_occurrences [OF v])
  have "spansOk 0 (findAllFrom src oldName 0) (length src)"
    by (rule findAllFrom_spansOk [OF ne])
  with ne occ have "spansOk 0 (occurrences src oldName) (length src)"
    by (simp add: findAllStringIndex_def)
  then have ok: "spansOk 0 ?acc (length src)" unfolding accepted_def by (rule spansOk_filter)
  have "spliceFrom src newName ?acc 0 = concat (map (piece src newName ?acc) [0..<length src])"
    using ok by (rule spliceFrom_pieces) simp
  then have "spliceFrom src newName ?acc 0 = replaceSpans src newName ?acc"
    by (simp add: replaceSpans_def)
  then show ?thesis
    by (simp add: singlePassRename_def singlePassLoop_splice occ)
qed

theorem singlePassRename_exact_witness:
  "replaceSpans ''class User(val name: String)\<newline>class UserService(val user: User)'' ''UserAccount''
     (accepted isClassContext ''class User(val name: String)\<newline>class UserService(val user: User)''
        (occurrences ''class User(val name: String)\<newline>class UserService(val user: User)'' ''User''))
     = ''class UserAccount(val name: String)\<newline>class UserService(val user: UserAccount)'' \<and>
   length (accepted isClassContext ''class User(val name: String)\<newline>class UserService(val user: User)''
        (occurrences ''class User(val name: String)\<newline>class UserService(val user: User)'' ''User'')) = 2"
proof -
  have v: "ValidateIdentifier ''User'' = None" by code_simp
  have e: "singlePassRename ''class User(val name: String)\<newline>class UserService(val user: User)''
       ''User'' ''UserAccount'' isClassContext
     = (''class UserAccount(val name: String)\<newline>class UserService(val user: UserAccount)'', 2)"
    by code_simp
  from singlePassRename_exact [OF v,
      of "''class User(val name: String)\<newline>class UserService(val user: User)''"
      "''UserAccount''" isClassContext] e
  show ?thesis by simp
qed

text \<open>
  Claim C1. For every symbol kind, and valid identifiers as old and new name, whenever
  the rename returns, the output has the tokens of the input, one for one, except that
  tokens equal to the old name may have become the new name. An identifier that only
  contains the old name, as \<open>UserService\<close> contains \<open>User\<close>, is another token and is
  unchanged.
\<close>

theorem rename_keeps_other_identifiers:
  assumes v: "ValidateIdentifier oldName = None" and w: "ValidateIdentifier newName = None"
    and r: "buildRenameFn renameClass symType oldName newName content = Inr (out, n)"
  shows "list_all2 (renamedToken oldName newName) (tokens content) (tokens out) \<and>
         length (tokens out) = length (tokens content) \<and>
         (\<forall>i < length (tokens content). tokens content ! i \<noteq> oldName \<longrightarrow> tokens out ! i = tokens content ! i)"
proof -
  have rel: "list_all2 (renamedToken oldName newName) (tokens content) (tokens out)"
  proof (cases "symType = ''parameter''")
    case True
    with r have "renameParameters content oldName newName = Inr (out, n)"
      by (simp add: buildRenameFn_def ParameterRenamer_Rename_def)
    from renameParameters_tokens [OF v w this] show ?thesis .
  next
    case False
    note np = False
    show ?thesis
    proof (cases "symType = ''class'' \<or> symType = ''interface'' \<or> symType = ''object''")
      case True
      with r have "singlePassRename content oldName newName isClassContext = (out, n)"
        by (simp add: buildRenameFn_def ClassRenamer_Rename_def)
      then have "out = fst (singlePassRename content oldName newName isClassContext)" by simp
      with singlePassRename_tokens [OF v w, of content isClassContext] show ?thesis by simp
    next
      case nc: False
      show ?thesis
      proof (cases "symType = ''method''")
        case True
        with r nc have "singlePassRename content oldName newName
            (isMethodContext \<lparr>MethodRenamer.ClassName = renameClass\<rparr>) = (out, n)"
          by (simp add: buildRenameFn_def MethodRenamer_Rename_def)
        then have "out = fst (singlePassRename content oldName newName
            (isMethodContext \<lparr>MethodRenamer.ClassName = renameClass\<rparr>))" by simp
        with singlePassRename_tokens [OF v w, of content] show ?thesis by simp
      next
        case nm: False
        show ?thesis
        proof (cases "symType = ''property''")
          case True
          with r nc nm have "singlePassRename content oldName newName
              (isPropertyContext \<lparr>PropertyRenamer.ClassName = renameClass\<rparr>) = (out, n)"
            by (simp add: buildRenameFn_def PropertyRenamer_Rename_def)
          then have "out = fst (singlePassRename content oldName newName
              (isPropertyContext \<lparr>PropertyRenamer.ClassName = renameClass\<rparr>))" by simp
          with singlePassRename_tokens [OF v w, of content] show ?thesis by simp
        next
          case False
          with r nc nm np have "out = content" by (simp add: buildRenameFn_def)
          then show ?thesis by (simp add: renamedToken_refl)
        qed
      qed
    qed
  qed
  then have "length (tokens content) = length (tokens out)"
    and "\<forall>i < length (tokens content). renamedToken oldName newName (tokens content ! i) (tokens out ! i)"
    by (simp_all add: list_all2_conv_all_nth)
  with rel show ?thesis by (auto simp: renamedToken_def)
qed

theorem rename_keeps_other_identifiers_witness:
  "list_all2 (renamedToken ''User'' ''X'')
     (tokens ''class User(val name: String)\<newline>class UserService(val user: User)'')
     (tokens ''class X(val name: String)\<newline>class UserService(val user: X)'') \<and>
   list_all2 (renamedToken ''User'' ''X'')
     (tokens ''fun f(User: UserService) = User'') (tokens ''fun f(X: UserService) = X'')"
proof -
  have v: "ValidateIdentifier ''User'' = None" by code_simp
  have w: "ValidateIdentifier ''X'' = None" by code_simp
  have r1: "buildRenameFn '''' ''class'' ''User'' ''X''
      ''class User(val name: String)\<newline>class UserService(val user: User)''
     = Inr (''class X(val name: String)\<newline>class UserService(val user: X)'', 2)" by code_simp
  have r2: "buildRenameFn '''' ''parameter'' ''User'' ''X'' ''fun f(User: UserService) = User''
     = Inr (''fun f(X: UserService) = X'', 2)" by code_simp
  from rename_keeps_other_identifiers [OF v w r1, THEN conjunct1]
       rename_keeps_other_identifiers [OF v w r2, THEN conjunct1]
  show ?thesis by (rule conjI)
qed

section \<open>The class filter of the method and property renamers\<close>

lemma isMethodContext_receiver: "isMethodContext r = isMethodContext r'"
  by (simp add: fun_eq_iff isMethodContext_def)

lemma isPropertyContext_receiver: "isPropertyContext p = isPropertyContext p'"
  by (simp add: fun_eq_iff isPropertyContext_def)

text \<open>
  Claim C3. A non-empty class name is meant to narrow a method or property rename to the
  call sites of that class. Neither predicate reads the \<open>ClassName\<close> field, so the rename
  is the same function for every class name; on the two calls of the project's own usage
  example, a rename scoped to \<open>CartService\<close> rewrites the call on \<open>order\<close> as well.
\<close>

theorem className_has_no_effect:
  "MethodRenamer_Rename r = MethodRenamer_Rename r' \<and>
   PropertyRenamer_Rename p = PropertyRenamer_Rename p' \<and>
   buildRenameFn ''CartService'' ''method'' ''calculateTotal'' ''computeTotal''
     ''cart.calculateTotal()\<newline>order.calculateTotal()''
   = Inr (''cart.computeTotal()\<newline>order.computeTotal()'', 2)"
proof (intro conjI)
  show "MethodRenamer_Rename r = MethodRenamer_Rename r'"
    by (simp add: fun_eq_iff MethodRenamer_Rename_def isMethodContext_receiver [of r r'])
  show "PropertyRenamer_Rename p = PropertyRenamer_Rename p'"
    by (simp add: fun_eq_iff PropertyRenamer_Rename_def isPropertyContext_receiver [of p p'])
  show "buildRenameFn ''CartService'' ''method'' ''calculateTotal'' ''computeTotal''
     ''cart.calculateTotal()\<newline>order.calculateTotal()''
   = Inr (''cart.computeTotal()\<newline>order.computeTotal()'', 2)"
    by code_simp
qed

section \<open>The function predicate\<close>

text \<open>
  Claim C4. The function predicate should accept every word-boundary occurrence that
  follows \<open>::\<close>. It tests the character after the occurrence only once spaces and tabs
  are trimmed, so a method reference followed by a blank and another word is rejected:
  in \<open>val f = ::calculateTotal andThen g\<close> the one match, at bytes 10 to 24, follows
  \<open>::\<close> and is left as it is. The two calls of the claim's example are rewritten, and
  the binding \<open>val calculateTotal = 5\<close> is not.
\<close>

theorem method_reference_before_word_rejected:
  "findAllStringIndex ''val f = ::calculateTotal andThen g'' ''calculateTotal'' = [(10, 24)] \<and>
   HasSuffix (TrimRight (take 10 ''val f = ::calculateTotal andThen g'')) ''::'' \<and>
   isMethodContext \<lparr>MethodRenamer.ClassName = ''''\<rparr> ''val f = ::calculateTotal andThen g'' 10 24 = False \<and>
   buildRenameFn '''' ''method'' ''calculateTotal'' ''computeTotal'' ''val f = ::calculateTotal andThen g''
     = Inr (''val f = ::calculateTotal andThen g'', 0) \<and>
   buildRenameFn '''' ''method'' ''calculateTotal'' ''computeTotal''
       ''val total = cart.calculateTotal()\<newline>val x = calculateTotal()''
     = Inr (''val total = cart.computeTotal()\<newline>val x = computeTotal()'', 2) \<and>
   buildRenameFn '''' ''method'' ''calculateTotal'' ''computeTotal'' ''val calculateTotal = 5''
     = Inr (''val calculateTotal = 5'', 0)"
  by (intro conjI; code_simp)

section \<open>The property predicate\<close>

text \<open>
  Claim C10 says the property predicate is one test: word boundary, and the first
  character after the span, spaces and tabs trimmed, is not \<open>(\<close>. The rules for \<open>.\<close>,
  \<open>val\<close> and \<open>var\<close> return before that test is reached, so a member call is accepted:
  in \<open>this.size()\<close> the match of \<open>size\<close> is followed by \<open>(\<close> and accepted.
\<close>

theorem property_member_call_accepted:
  "findAllStringIndex ''this.size()'' ''size'' = [(5, 9)] \<and>
   TrimLeft (drop 9 ''this.size()'') = ''()'' \<and>
   isPropertyContext \<lparr>PropertyRenamer.ClassName = ''''\<rparr> ''this.size()'' 5 9"
  by (intro conjI; code_simp)

text \<open>
  Claim C10, amended. When the text after the span, spaces and tabs trimmed, is empty or
  starts with a character that is no identifier character, the predicate accepts exactly
  when the character before the span is no identifier character and either the text
  before the span, trimmed, ends in \<open>.\<close>, \<open>val\<close> or \<open>var\<close>, or the first character after the
  span is not \<open>(\<close>. The rules for \<open>=\<close> and \<open>:\<close> add nothing to the default branch; an
  occurrence before \<open>==\<close> and a named argument are both rewritten.
\<close>

theorem property_predicate_collapsed:
  assumes "TrimLeft (drop end src) = [] \<or> \<not> isIdentChar (hd (TrimLeft (drop end src)))"
  shows "(isPropertyContext r src start end \<longleftrightarrow>
           \<not> (take start src \<noteq> [] \<and> isIdentChar (last (take start src))) \<and>
           (HasSuffix (TrimRight (take start src)) ''.'' \<or>
            HasSuffix (TrimRight (take start src)) ''val'' \<or>
            HasSuffix (TrimRight (take start src)) ''var'' \<or>
            TrimLeft (drop end src) = [] \<or> hd (TrimLeft (drop end src)) \<noteq> CHR ''('')) \<and>
         buildRenameFn '''' ''property'' ''total'' ''sum'' ''if (total == 1) use(total = 2)''
           = Inr (''if (sum == 1) use(sum = 2)'', 2)"
proof
  show "isPropertyContext r src start end \<longleftrightarrow>
           \<not> (take start src \<noteq> [] \<and> isIdentChar (last (take start src))) \<and>
           (HasSuffix (TrimRight (take start src)) ''.'' \<or>
            HasSuffix (TrimRight (take start src)) ''val'' \<or>
            HasSuffix (TrimRight (take start src)) ''var'' \<or>
            TrimLeft (drop end src) = [] \<or> hd (TrimLeft (drop end src)) \<noteq> CHR ''('')"
    using assms unfolding isPropertyContext_def Let_def by (cases "TrimLeft (drop end src)") auto
  show "buildRenameFn '''' ''property'' ''total'' ''sum'' ''if (total == 1) use(total = 2)''
           = Inr (''if (sum == 1) use(sum = 2)'', 2)"
    by code_simp
qed


theorem property_predicate_collapsed_witness:
  "isPropertyContext \<lparr>PropertyRenamer.ClassName = ''''\<rparr> ''if (total == 1) use(total = 2)'' 4 9 \<and>
   isPropertyContext \<lparr>PropertyRenamer.ClassName = ''''\<rparr> ''if (total == 1) use(total = 2)'' 20 25"
proof -
  let ?s = "''if (total == 1) use(total = 2)''"
  have h1: "TrimLeft (drop 9 ?s) = [] \<or> \<not> isIdentChar (hd (TrimLeft (drop 9 ?s)))" by code_simp
  have h2: "TrimLeft (drop 25 ?s) = [] \<or> \<not> isIdentChar (hd (TrimLeft (drop 25 ?s)))" by code_simp
  have c1: "\<not> (take 4 ?s \<noteq> [] \<and> isIdentChar (last (take 4 ?s))) \<and>
           (HasSuffix (TrimRight (take 4 ?s)) ''.'' \<or>
            HasSuffix (TrimRight (take 4 ?s)) ''val'' \<or>
            HasSuffix (TrimRight (take 4 ?s)) ''var'' \<or>
            TrimLeft (drop 9 ?s) = [] \<or> hd (TrimLeft (drop 9 ?s)) \<noteq> CHR ''('')" by code_simp
  have c2: "\<not> (take 20 ?s \<noteq> [] \<and> isIdentChar (last (take 20 ?s))) \<and>
           (HasSuffix (TrimRight (take 20 ?s)) ''.'' \<or>
            HasSuffix (TrimRight (take 20 ?s)) ''val'' \<or>
            HasSuffix (TrimRight (take 20 ?s)) ''var'' \<or>
            TrimLeft (drop 25 ?s) = [] \<or> hd (TrimLeft (drop 25 ?s)) \<noteq> CHR ''('')" by code_simp
  from iffD2 [OF property_predicate_collapsed [OF h1, THEN conjunct1] c1]
       iffD2 [OF property_predicate_collapsed [OF h2, THEN conjunct1] c2]
  show ?thesis by (rule conjI)
qed

text \<open>
  Claim C5 says a property rename never rewrites an occurrence followed by \<open>(\<close>. After
  \<open>.\<close> it does: the member call \<open>cart.comboDiscount()\<close> is renamed.
\<close>

theorem property_rename_member_call:
  "buildRenameFn '''' ''property'' ''comboDiscount'' ''bundle'' ''val x = cart.comboDiscount()''
     = Inr (''val x = cart.bundle()'', 1)"
  by code_simp

text \<open>
  Claim C5, amended. For every match of the target in the buffer: when it is followed,
  spaces and tabs trimmed, by \<open>(\<close> and the text before it, trimmed, does not end in \<open>.\<close>,
  \<open>val\<close> or \<open>var\<close>, the property predicate rejects it; when the text after it, trimmed, is
  empty or starts with a character that is neither an identifier character nor \<open>(\<close>, the
  predicate accepts it. On the five bare uses of \<open>comboDiscount\<close> with a call
  \<open>comboDiscount()\<close> beside them the count is 5 and the call stays.
\<close>

theorem property_call_site_rule:
  assumes v: "ValidateIdentifier oldName = None"
    and m: "(start, end) \<in> set (findAllStringIndex src oldName)"
  shows "(TrimLeft (drop end src) \<noteq> [] \<and> hd (TrimLeft (drop end src)) = CHR ''('' \<and>
          \<not> HasSuffix (TrimRight (take start src)) ''.'' \<and>
          \<not> HasSuffix (TrimRight (take start src)) ''val'' \<and>
          \<not> HasSuffix (TrimRight (take start src)) ''var''
            \<longrightarrow> \<not> isPropertyContext r src start end) \<and>
         (TrimLeft (drop end src) = [] \<or>
          (\<not> isIdentChar (hd (TrimLeft (drop end src))) \<and> hd (TrimLeft (drop end src)) \<noteq> CHR ''('')
            \<longrightarrow> isPropertyContext r src start end) \<and>
         buildRenameFn '''' ''property'' ''comboDiscount'' ''bundle''
           ''fun apply() {\<newline>    val d = comboDiscount\<newline>    this.comboDiscount = d * 2\<newline>    println(comboDiscount)\<newline>    if (comboDiscount > 0) { }\<newline>    comboDiscount = 0.0\<newline>    val y = comboDiscount()\<newline>}''
         = Inr (''fun apply() {\<newline>    val d = bundle\<newline>    this.bundle = d * 2\<newline>    println(bundle)\<newline>    if (bundle > 0) { }\<newline>    bundle = 0.0\<newline>    val y = comboDiscount()\<newline>}'', 5)"
proof -
  have scenario: "buildRenameFn '''' ''property'' ''comboDiscount'' ''bundle''
           ''fun apply() {\<newline>    val d = comboDiscount\<newline>    this.comboDiscount = d * 2\<newline>    println(comboDiscount)\<newline>    if (comboDiscount > 0) { }\<newline>    comboDiscount = 0.0\<newline>    val y = comboDiscount()\<newline>}''
         = Inr (''fun apply() {\<newline>    val d = bundle\<newline>    this.bundle = d * 2\<newline>    println(bundle)\<newline>    if (bundle > 0) { }\<newline>    bundle = 0.0\<newline>    val y = comboDiscount()\<newline>}'', 5)"
    by code_simp
  from match_boundaries [OF v m] have e: "end \<le> length src" "end = start + length oldName"
    and b: "start = 0 \<or> \<not> isIdentChar (src ! (start - 1))" by simp_all
  have pre: "\<not> (take start src \<noteq> [] \<and> isIdentChar (last (take start src)))"
  proof (cases "start = 0")
    case True then show ?thesis by simp
  next
    case False
    with e have "last (take start src) = src ! (start - 1)" by (intro last_take_nth) simp_all
    with b False show ?thesis by simp
  qed
  have rule: "(TrimLeft (drop end src) \<noteq> [] \<and> hd (TrimLeft (drop end src)) = CHR ''('' \<and>
          \<not> HasSuffix (TrimRight (take start src)) ''.'' \<and>
          \<not> HasSuffix (TrimRight (take start src)) ''val'' \<and>
          \<not> HasSuffix (TrimRight (take start src)) ''var''
            \<longrightarrow> \<not> isPropertyContext r src start end) \<and>
         (TrimLeft (drop end src) = [] \<or>
          (\<not> isIdentChar (hd (TrimLeft (drop end src))) \<and> hd (TrimLeft (drop end src)) \<noteq> CHR ''('')
            \<longrightarrow> isPropertyContext r src start end)"
    using pre unfolding isPropertyContext_def Let_def
    by (cases "TrimLeft (drop end src)") auto
  from rule scenario show ?thesis by blast
qed

theorem property_call_site_rule_witness:
  "isPropertyContext \<lparr>PropertyRenamer.ClassName = ''''\<rparr> ''println(comboDiscount)'' 8 21 \<and>
   \<not> isPropertyContext \<lparr>PropertyRenamer.ClassName = ''''\<rparr> ''val x = comboDiscount()'' 8 21"
proof -
  have v: "ValidateIdentifier ''comboDiscount'' = None" by code_simp
  have m1: "(8, 21) \<in> set (findAllStringIndex ''println(comboDiscount)'' ''comboDiscount'')" by code_simp
  have m2: "(8, 21) \<in> set (findAllStringIndex ''val x = comboDiscount()'' ''comboDiscount'')" by code_simp
  have a1: "TrimLeft (drop 21 ''println(comboDiscount)'') = [] \<or>
          (\<not> isIdentChar (hd (TrimLeft (drop 21 ''println(comboDiscount)''))) \<and>
           hd (TrimLeft (drop 21 ''println(comboDiscount)'')) \<noteq> CHR ''('')" by code_simp
  have a2: "TrimLeft (drop 21 ''val x = comboDiscount()'') \<noteq> [] \<and>
          hd (TrimLeft (drop 21 ''val x = comboDiscount()'')) = CHR ''('' \<and>
          \<not> HasSuffix (TrimRight (take 8 ''val x = comboDiscount()'')) ''.'' \<and>
          \<not> HasSuffix (TrimRight (take 8 ''val x = comboDiscount()'')) ''val'' \<and>
          \<not> HasSuffix (TrimRight (take 8 ''val x = comboDiscount()'')) ''var''" by code_simp
  from property_call_site_rule [OF v m1, THEN conjunct2, THEN conjunct1, THEN mp, OF a1]
       property_call_site_rule [OF v m2, THEN conjunct1, THEN mp, OF a2]
  show ?thesis by (rule conjI)
qed

section \<open>Headers whose parenthesis never closes\<close>









section \<open>The offset of the parameter renamer\<close>

text \<open>
  Claim C6. A parameter rename should change nothing outside the scopes of the function
  headers that declare the name. The running offset is added to every later keyword
  position, also when the edits lie behind that keyword: after the three edits in the
  scope of \<open>outer\<close>, the search for the parameter list of the nested \<open>f\<close> starts 16 bytes
  too far, passes its parenthesis, and takes the constructor of \<open>Box\<close> for a header.
  On the claim's own example, with one function and a file-level \<open>val\<close>, the two
  occurrences in \<open>greet\<close> are rewritten and the \<open>val\<close> stays.
\<close>

theorem parameter_rename_leaves_scope:
  \<open>renameParameters ''fun outer(id: Int) { fun f() = id + id }\<newline>class Box(id: Int)''
     ''id'' ''identifier''
   = Inr (''fun outer(identifier: Int) { fun f() = identifier + identifier }\<newline>class Box(identifier: Int)'', 4) \<and>
   renameParameters
     ''fun greet(userId: String): String { return "Hello $userId" }\<newline>val userId = "global"''
     ''userId'' ''accountId''
   = Inr (''fun greet(accountId: String): String { return "Hello $accountId" }\<newline>val userId = "global"'', 2)\<close>
  by (intro conjI; code_simp)

text \<open>
  Claim C7. A second run of the same rename should find nothing left. In the first run
  the offset counts both edits of the first line, though one of them lies behind the
  keyword of the anonymous function: the search for its parameter list starts behind
  its parenthesis and the header is skipped. The second run renames it.
\<close>

theorem parameter_rename_second_run_renames:
  "renameParameters
     ''fun make(id: Int) = wrap(fun(p: Int = id,\<newline>    id: Int): Int { return id })''
     ''id'' ''identifier''
   = Inr (''fun make(identifier: Int) = wrap(fun(p: Int = identifier,\<newline>    id: Int): Int { return id })'', 2) \<and>
   renameParameters
     ''fun make(identifier: Int) = wrap(fun(p: Int = identifier,\<newline>    id: Int): Int { return id })''
     ''id'' ''identifier''
   = Inr (''fun make(identifier: Int) = wrap(fun(p: Int = identifier,\<newline>    identifier: Int): Int { return identifier })'', 2)"
  by (intro conjI; code_simp)

text \<open>
  Claim C8. Renaming back should restore the buffer. The new name does not occur in the
  buffer and the forward rename is as expected; on the way back the five edits shrink the
  text by 25 bytes, the keyword of the nested function sits at byte 21, and the slice
  \<open>result[funStart:]\<close> is taken at \<open>-4\<close>.
\<close>

theorem parameter_rename_back_panics:
  "findAllStringIndex ''fun f(n: Int) { fun g() = n + n + n + n }'' ''amount'' = [] \<and>
   renameParameters ''fun f(n: Int) { fun g() = n + n + n + n }'' ''n'' ''amount''
   = Inr (''fun f(amount: Int) { fun g() = amount + amount + amount + amount }'', 5) \<and>
   renameParameters ''fun f(amount: Int) { fun g() = amount + amount + amount + amount }''
     ''amount'' ''n''
   = Inl SliceBoundsOutOfRange"
  by (intro conjI; code_simp)

text \<open>
  Claim C2. The count of a rename should be the number of occurrences the governing
  predicate accepts, and every byte outside the accepted spans, out-of-scope occurrences
  included, should be the byte of the input. The single-pass driver is exact, as proved
  above; the parameter driver is not. The buffer below has four occurrences of \<open>w\<close> and
  two headers. The header of \<open>area\<close> declares \<open>w\<close>, and its scope, bytes 8 to 36, holds
  three occurrences, all accepted; the header of \<open>sq\<close> declares nothing. The input with
  these three spans replaced keeps \<open>Size(w: Int)\<close>. The code returns the count 4 and
  another buffer: after the three edits the search for the parameter list of \<open>sq\<close>
  starts at byte \<open>19 + 12\<close>, behind its parenthesis, and finds the constructor of
  \<open>Size\<close>, whose occurrence at byte 54 lies in no scope.
\<close>

theorem parameter_outcome_not_exact:
  "occurrences ''fun area(w: Int) { fun sq() = w * w }\<newline>data class Size(w: Int)'' ''w''
     = [(9, 10), (30, 31), (34, 35), (54, 55)] \<and>
   findAllStringIndex ''fun area(w: Int) { fun sq() = w * w }\<newline>data class Size(w: Int)'' ''fun''
     = [(0, 3), (19, 22)] \<and>
   IndexByte ''fun area(w: Int) { fun sq() = w * w }\<newline>data class Size(w: Int)'' (CHR ''('') = Some 8 \<and>
   findMatchingParen ''fun area(w: Int) { fun sq() = w * w }\<newline>data class Size(w: Int)'' 8 = Some 15 \<and>
   hasParamName ''(w: Int)'' ''w'' \<and>
   findFunctionBody ''fun area(w: Int) { fun sq() = w * w }\<newline>data class Size(w: Int)'' 16 = Some (17, 37) \<and>
   accepted isParameterContext ''(w: Int) { fun sq() = w * w }''
       (occurrences ''(w: Int) { fun sq() = w * w }'' ''w'')
     = [(1, 2), (22, 23), (26, 27)] \<and>
   IndexByte (drop 19 ''fun area(w: Int) { fun sq() = w * w }\<newline>data class Size(w: Int)'') (CHR ''('')
     = Some 6 \<and>
   findMatchingParen ''fun area(w: Int) { fun sq() = w * w }\<newline>data class Size(w: Int)'' 25 = Some 26 \<and>
   hasParamName ''()'' ''w'' = False \<and>
   replaceSpans ''fun area(w: Int) { fun sq() = w * w }\<newline>data class Size(w: Int)'' ''width''
       [(9, 10), (30, 31), (34, 35)]
     = ''fun area(width: Int) { fun sq() = width * width }\<newline>data class Size(w: Int)'' \<and>
   renameParameters ''fun area(w: Int) { fun sq() = w * w }\<newline>data class Size(w: Int)'' ''w'' ''width''
     = Inr (''fun area(width: Int) { fun sq() = width * width }\<newline>data class Size(width: Int)'', 4)"
  by (intro conjI; code_simp)

end
